theory Spec2Isabelle
  imports Main "HOL-Library.Word" "HOL-Library.Multiset"
begin

unbundle bit_operations_syntax

section \<open>The compile driver: \<open>GenProgram::compileKernel\<close> (gen\_program.cpp)\<close>

text \<open>
  The strategy table \<open>codeGenStrategy[]\<close> of gen\_program.cpp: pairs of a SIMD width
  and the flag \<open>limitRegisterPressure\<close>, in the order of the source.
\<close>

record CodeGenStrategy =
  simdWidth :: nat
  limitRegisterPressure :: bool

definition codeGenStrategy :: "CodeGenStrategy list" where
  "codeGenStrategy =
     [\<lparr>simdWidth = 16, limitRegisterPressure = False\<rparr>,
      \<lparr>simdWidth = 16, limitRegisterPressure = True\<rparr>,
      \<lparr>simdWidth = 8, limitRegisterPressure = False\<rparr>,
      \<lparr>simdWidth = 8, limitRegisterPressure = True\<rparr>]"

text \<open>
  \<open>GBE_ASSERTM(kernel != NULL, "Register spilling not supported yet!")\<close> is the only
  way \<open>compileKernel\<close> fails.
\<close>

datatype compile_error = SpillingNotSupported

text \<open>
  The loop \<open>for (; codeGen < codeGenNum; ++codeGen)\<close>. The parameter \<open>compile\<close>
  stands for \<open>GenContext(unit, name, limitRegisterPressure).compileKernel()\<close> run after
  \<open>setSimdWidth(simdWidth)\<close>: \<open>None\<close> is the NULL kernel. The list \<open>tried\<close> records
  the strategies attempted so far, in order.
\<close>

function compileLoop ::
  "(CodeGenStrategy \<Rightarrow> 'k option) \<Rightarrow> nat \<Rightarrow> nat \<Rightarrow> CodeGenStrategy list
     \<Rightarrow> CodeGenStrategy list \<times> 'k option" where
  "compileLoop compile codeGen codeGenNum tried =
     (if codeGen < codeGenNum then
        (let s = codeGenStrategy ! codeGen;
             kernel = compile s
         in if kernel \<noteq> None then (tried @ [s], kernel)
            else compileLoop compile (codeGen + 1) codeGenNum (tried @ [s]))
      else (tried, None))"
  by pat_completeness auto
termination
  by (relation "measure (\<lambda>(c, codeGen, codeGenNum, t). codeGenNum - codeGen)") auto

text \<open>
  \<open>compileKernel\<close>: \<open>fnSimdWidth\<close> is \<open>fn->getSimdWidth()\<close> read before the loop
  (0 when the width is not forced). The result is the list of attempted strategies and
  the kernel, or the failed assertion.
\<close>

definition compileKernel ::
  "(CodeGenStrategy \<Rightarrow> 'k option) \<Rightarrow> nat \<Rightarrow> CodeGenStrategy list \<times> (compile_error + 'k)" where
  "compileKernel compile fnSimdWidth =
     (let codeGenNum = (if fnSimdWidth \<noteq> 0 then 2 else 4);
          codeGen = (if fnSimdWidth = 8 then 2 else 0);
          (tried, kernel) = compileLoop compile codeGen codeGenNum []
      in case kernel of
           None \<Rightarrow> (tried, Inl SpillingNotSupported)
         | Some k \<Rightarrow> (tried, Inr k))"

text \<open>
  The attempts the claim describes: the strategies whose width matches the pinned
  width (all four when no width is pinned), up to and including the first that succeeds.
\<close>

fun firstSuccess :: "(CodeGenStrategy \<Rightarrow> 'k option) \<Rightarrow> CodeGenStrategy list \<Rightarrow> CodeGenStrategy list" where
  "firstSuccess compile [] = []"
| "firstSuccess compile (s # ss) =
     (if compile s \<noteq> None then [s] else s # firstSuccess compile ss)"

definition matchingStrategies :: "nat \<Rightarrow> CodeGenStrategy list" where
  "matchingStrategies fnSimdWidth =
     (if fnSimdWidth = 0 then codeGenStrategy
      else filter (\<lambda>s. simdWidth s = fnSimdWidth) codeGenStrategy)"

declare compileLoop.simps [simp del]

lemma compileLoop_done: "compileLoop compile n n tried = (tried, None)"
  by (subst compileLoop.simps) simp

lemma drop_take_step:
  "i < n \<Longrightarrow> n \<le> length xs \<Longrightarrow> drop i (take n xs) = xs ! i # drop (Suc i) (take n xs)"
  using Cons_nth_drop_Suc [of i "take n xs"] by simp

lemma compileLoop_tried:
  "n \<le> length codeGenStrategy \<Longrightarrow>
   fst (compileLoop compile i n tried) =
     tried @ firstSuccess compile (drop i (take n codeGenStrategy))"
proof (induction compile i n tried rule: compileLoop.induct)
  case (1 compile codeGen codeGenNum tried)
  show ?case
  proof (cases "codeGen < codeGenNum")
    case False
    then show ?thesis by (subst compileLoop.simps) simp
  next
    case True
    note step = drop_take_step [OF True "1.prems"]
    show ?thesis
    proof (cases "compile (codeGenStrategy ! codeGen) = None")
      case False
      then show ?thesis
        using True by (subst compileLoop.simps) (auto simp: step Let_def)
    next
      case None: True
      have "fst (compileLoop compile (codeGen + 1) codeGenNum (tried @ [codeGenStrategy ! codeGen]))
            = (tried @ [codeGenStrategy ! codeGen])
              @ firstSuccess compile (drop (codeGen + 1) (take codeGenNum codeGenStrategy))"
        using "1.IH" [OF True refl refl _ "1.prems"] None by simp
      then show ?thesis
        using True None by (subst compileLoop.simps) (simp add: step Let_def)
    qed
  qed
qed

lemma fst_compileKernel:
  "fst (compileKernel compile w) =
     fst (compileLoop compile (if w = 8 then 2 else 0) (if w \<noteq> 0 then 2 else 4) [])"
  unfolding compileKernel_def by (simp add: Let_def split: prod.splits option.splits)

text \<open>With no pinned width the four strategies are tried in order up to the first success.\<close>

lemma compileKernel_unpinned:
  "fst (compileKernel compile 0) = firstSuccess compile codeGenStrategy"
  by (simp add: fst_compileKernel compileLoop_tried codeGenStrategy_def)

text \<open>With the width pinned to 16 the two SIMD16 strategies are tried.\<close>

lemma compileKernel_pinned16:
  "fst (compileKernel compile 16) = firstSuccess compile (matchingStrategies 16)"
  by (simp add: fst_compileKernel compileLoop_tried codeGenStrategy_def matchingStrategies_def)

text \<open>
  C1 (code bug). The claim: when the width is pinned (8 or 16), exactly the strategies of
  that width are attempted, in order, up to the first success. For a function pinned to
  SIMD8 the code sets \<open>codeGen = 2\<close> and \<open>codeGenNum = 2\<close>, so the loop body never
  runs: no strategy is attempted, whatever the compiler would answer, and the assertion
  on the NULL kernel fails. The two SIMD8 strategies of the table are never reached.
\<close>

theorem C1_pinned_simd8_tries_nothing:
  "compileKernel compile 8 = ([], Inl SpillingNotSupported)
   \<and> matchingStrategies 8 =
       [\<lparr>simdWidth = 8, limitRegisterPressure = False\<rparr>,
        \<lparr>simdWidth = 8, limitRegisterPressure = True\<rparr>]"
  unfolding compileKernel_def matchingStrategies_def codeGenStrategy_def
  by (simp add: compileLoop_done)


section \<open>The scalar IR: registers, instructions, functions (ir/instruction.cpp, ir/function.hpp)\<close>

text \<open>
  \<open>Register\<close>, \<open>Tuple\<close>, \<open>LabelIndex\<close> and \<open>ImmediateIndex\<close> are 16-bit
  type-safe integers (\<open>TYPE_SAFE(LabelIndex, uint16_t)\<close>); sizes of vectors are read as
  naturals.
\<close>

type_synonym Register = "16 word"
type_synonym Tuple = "16 word"
type_synonym LabelIndex = "16 word"
type_synonym ImmediateIndex = "16 word"

datatype Type =
    TYPE_BOOL | TYPE_S8 | TYPE_U8 | TYPE_S16 | TYPE_U16 | TYPE_S32 | TYPE_U32
  | TYPE_S64 | TYPE_U64 | TYPE_HALF | TYPE_FLOAT | TYPE_DOUBLE

datatype RegisterFamily = FAMILY_BOOL | FAMILY_BYTE | FAMILY_WORD | FAMILY_DWORD | FAMILY_QWORD

datatype AddressSpace = MEM_GLOBAL | MEM_LOCAL | MEM_CONSTANT | MEM_PRIVATE | MEM_INVALID

datatype Profile = PROFILE_C | PROFILE_OCL

datatype Opcode =
    OP_MOV | OP_COS | OP_SIN | OP_RCP | OP_ABS | OP_LOG | OP_SQR | OP_RSQ
  | OP_RNDD | OP_RNDE | OP_RNDU | OP_RNDZ
  | OP_POW | OP_MUL | OP_ADD | OP_SUB | OP_DIV | OP_REM | OP_SHL | OP_SHR | OP_ASR
  | OP_BSF | OP_BSB | OP_OR | OP_XOR | OP_AND
  | OP_SEL | OP_EQ | OP_NE | OP_LE | OP_LT | OP_GE | OP_GT | OP_CVT
  | OP_BRA | OP_RET | OP_LOADI | OP_LOAD | OP_STORE | OP_SYNC
  | OP_TYPED_WRITE | OP_SAMPLE | OP_LABEL | OP_INVALID

text \<open>
  The classes of namespace \<open>internal\<close>, one constructor per class, with the fields of
  the class in the order of its constructor:
  \<^item> \<open>UnaryInstruction opcode type dst src\<close>, \<open>BinaryInstruction opcode type dst src0 src1\<close>,
    \<open>CompareInstruction opcode type dst src0 src1\<close>;
  \<^item> \<open>SelectInstruction type dst src\<close> (the three sources are a tuple);
  \<^item> \<open>ConvertInstruction dstType srcType dst src\<close>;
  \<^item> \<open>BranchInstruction opcode predicate labelIndex hasPredicate hasLabel\<close>;
  \<^item> \<open>LoadInstruction type values offset addrSpace valueNum dwAligned\<close> and
    \<open>StoreInstruction\<close> with the same fields;
  \<^item> \<open>LoadImmInstruction type dst immediateIndex\<close>, \<open>SyncInstruction parameters\<close>,
    \<open>LabelInstruction labelIndex\<close>.
\<close>

datatype Instruction =
    UnaryInstruction Opcode Type Register Register
  | BinaryInstruction Opcode Type Register Register Register
  | SelectInstruction Type Register Tuple
  | CompareInstruction Opcode Type Register Register Register
  | ConvertInstruction Type Type Register Register
  | BranchInstruction Opcode Register LabelIndex bool bool
  | LoadInstruction Type Tuple Register AddressSpace nat bool
  | StoreInstruction Type Tuple Register AddressSpace nat bool
  | SampleInstruction
  | TypedWriteInstruction
  | LoadImmInstruction Type Register ImmediateIndex
  | SyncInstruction "32 word"
  | LabelInstruction LabelIndex

text \<open>The emission functions \<open>BRA\<close>, \<open>RET\<close> and \<open>LABEL\<close>.\<close>

definition BRA :: "LabelIndex \<Rightarrow> Instruction" where
  "BRA labelIndex = BranchInstruction OP_BRA 0 labelIndex False True"

definition BRA_pred :: "LabelIndex \<Rightarrow> Register \<Rightarrow> Instruction" where
  "BRA_pred labelIndex pred = BranchInstruction OP_BRA pred labelIndex True True"

definition RET :: Instruction where
  "RET = BranchInstruction OP_RET 0 0 False False"

definition LABEL :: "LabelIndex \<Rightarrow> Instruction" where
  "LABEL labelIndex = LabelInstruction labelIndex"

text \<open>
  The register file holds one family per register and the vector of tuple slots. A
  basic block is its instruction list with the CFG links; a block pointer is the
  position of the block in \<open>blocks\<close>, NULL is \<open>None\<close>. The field \<open>file\<close> of the
  source is \<open>regfile\<close> here. Of an immediate only the
  type is kept.
\<close>

record RegisterFile =
  regs :: "RegisterFamily list"
  regTuples :: "Register list"

record BasicBlock =
  insns :: "Instruction list"
  predecessors :: "nat set"
  successors :: "nat set"
  nextBlock :: "nat option"
  prevBlock :: "nat option"

record Function =
  labels :: "nat option list"
  immediates :: "Type list"
  blocks :: "BasicBlock list"
  regfile :: RegisterFile
  profile :: Profile

text \<open>
  Declarations of this repository that the instruction classes use and that are not in
  the sources at hand (ir/type.hpp, ir/profile.hpp) are parameters: the map
  \<open>getFamily\<close> from types to register families, the number \<open>ocl::regNum\<close> of special
  registers of the OpenCL profile and the stack pointer \<open>ocl::stackptr\<close>.
\<close>

record Externals =
  getFamily :: "Type \<Rightarrow> RegisterFamily"
  ocl_regNum :: "32 word"
  ocl_stackptr :: Register

definition regNum :: "Function \<Rightarrow> nat" where
  "regNum fn = length (regs (regfile fn))"

definition tupleNum :: "Function \<Rightarrow> nat" where
  "tupleNum fn = length (regTuples (regfile fn))"

definition labelNum :: "Function \<Rightarrow> nat" where
  "labelNum fn = length (labels fn)"

definition immediateNum :: "Function \<Rightarrow> nat" where
  "immediateNum fn = length (immediates fn)"

definition blockNum :: "Function \<Rightarrow> nat" where
  "blockNum fn = length (blocks fn)"

text \<open>
  \<open>fn.getRegister(tuple, which)\<close> reads \<open>regTuples[tuple + which]\<close>; a read outside
  the vector is undefined behaviour, here \<open>None\<close>.
\<close>

definition getRegister :: "Function \<Rightarrow> Tuple \<Rightarrow> nat \<Rightarrow> Register option" where
  "getRegister fn ID which =
     (if unat ID + which < tupleNum fn then Some (regTuples (regfile fn) ! (unat ID + which))
      else None)"

definition getFirstSpecialReg :: "Function \<Rightarrow> 32 word" where
  "getFirstSpecialReg fn = (if profile fn = PROFILE_OCL then 0 else NOT 0)"

definition getSpecialRegNum :: "Externals \<Rightarrow> Function \<Rightarrow> 32 word" where
  "getSpecialRegNum ext fn = (if profile fn = PROFILE_OCL then ocl_regNum ext else NOT 0)"

definition isSpecialReg :: "Externals \<Rightarrow> Function \<Rightarrow> Register \<Rightarrow> bool" where
  "isSpecialReg ext fn reg =
     (let ID = (ucast reg :: 32 word);
          firstID = getFirstSpecialReg fn;
          specialNum = getSpecialRegNum ext fn
      in ID \<ge> firstID \<and> ID < firstID + specialNum)"

subsection \<open>Operand access (the policies \<open>NSrcPolicy\<close>, \<open>NDstPolicy\<close>, \<open>TupleSrcPolicy\<close>)\<close>

fun getSrcNum :: "Instruction \<Rightarrow> nat" where
  "getSrcNum (UnaryInstruction opc t dst src) = 1"
| "getSrcNum (BinaryInstruction opc t dst src0 src1) = 2"
| "getSrcNum (SelectInstruction t dst src) = 3"
| "getSrcNum (CompareInstruction opc t dst src0 src1) = 2"
| "getSrcNum (ConvertInstruction dt st dst src) = 1"
| "getSrcNum (BranchInstruction opc p l hasPredicate hasLabel) = (if hasPredicate then 1 else 0)"
| "getSrcNum (LoadInstruction t values offset sp valueNum al) = 1"
| "getSrcNum (StoreInstruction t values offset sp valueNum al) = valueNum + 1"
| "getSrcNum SampleInstruction = 0"
| "getSrcNum TypedWriteInstruction = 0"
| "getSrcNum (LoadImmInstruction t dst imm) = 0"
| "getSrcNum (SyncInstruction ps) = 0"
| "getSrcNum (LabelInstruction l) = 0"

fun getDstNum :: "Instruction \<Rightarrow> nat" where
  "getDstNum (UnaryInstruction opc t dst src) = 1"
| "getDstNum (BinaryInstruction opc t dst src0 src1) = 1"
| "getDstNum (SelectInstruction t dst src) = 1"
| "getDstNum (CompareInstruction opc t dst src0 src1) = 1"
| "getDstNum (ConvertInstruction dt st dst src) = 1"
| "getDstNum (BranchInstruction opc p l hasPredicate hasLabel) = 0"
| "getDstNum (LoadInstruction t values offset sp valueNum al) = valueNum"
| "getDstNum (StoreInstruction t values offset sp valueNum al) = 0"
| "getDstNum SampleInstruction = 0"
| "getDstNum TypedWriteInstruction = 0"
| "getDstNum (LoadImmInstruction t dst imm) = 1"
| "getDstNum (SyncInstruction ps) = 0"
| "getDstNum (LabelInstruction l) = 0"

text \<open>
  \<open>getSrc\<close> and \<open>getDst\<close>: \<open>None\<close> where the source asserts (an operand number out
  of range) or reads outside the tuple vector.
\<close>

fun getSrc :: "Function \<Rightarrow> Instruction \<Rightarrow> nat \<Rightarrow> Register option" where
  "getSrc fn (UnaryInstruction opc t dst src) ID = (if ID < 1 then Some src else None)"
| "getSrc fn (BinaryInstruction opc t dst src0 src1) ID =
     (if ID < 2 then Some ([src0, src1] ! ID) else None)"
| "getSrc fn (SelectInstruction t dst src) ID = (if ID < 3 then getRegister fn src ID else None)"
| "getSrc fn (CompareInstruction opc t dst src0 src1) ID =
     (if ID < 2 then Some ([src0, src1] ! ID) else None)"
| "getSrc fn (ConvertInstruction dt st dst src) ID = (if ID < 1 then Some src else None)"
| "getSrc fn (BranchInstruction opc p l hasPredicate hasLabel) ID =
     (if hasPredicate \<and> ID = 0 then Some p else None)"
| "getSrc fn (LoadInstruction t values offset sp valueNum al) ID =
     (if ID < 1 then Some offset else None)"
| "getSrc fn (StoreInstruction t values offset sp valueNum al) ID =
     (if ID < valueNum + 1 then (if ID = 0 then Some offset else getRegister fn values (ID - 1))
      else None)"
| "getSrc fn SampleInstruction ID = None"
| "getSrc fn TypedWriteInstruction ID = None"
| "getSrc fn (LoadImmInstruction t dst imm) ID = None"
| "getSrc fn (SyncInstruction ps) ID = None"
| "getSrc fn (LabelInstruction l) ID = None"

fun getDst :: "Function \<Rightarrow> Instruction \<Rightarrow> nat \<Rightarrow> Register option" where
  "getDst fn (UnaryInstruction opc t dst src) ID = (if ID < 1 then Some dst else None)"
| "getDst fn (BinaryInstruction opc t dst src0 src1) ID = (if ID < 1 then Some dst else None)"
| "getDst fn (SelectInstruction t dst src) ID = (if ID < 1 then Some dst else None)"
| "getDst fn (CompareInstruction opc t dst src0 src1) ID = (if ID < 1 then Some dst else None)"
| "getDst fn (ConvertInstruction dt st dst src) ID = (if ID < 1 then Some dst else None)"
| "getDst fn (BranchInstruction opc p l hasPredicate hasLabel) ID = None"
| "getDst fn (LoadInstruction t values offset sp valueNum al) ID =
     (if ID < valueNum then getRegister fn values ID else None)"
| "getDst fn (StoreInstruction t values offset sp valueNum al) ID = None"
| "getDst fn SampleInstruction ID = None"
| "getDst fn TypedWriteInstruction ID = None"
| "getDst fn (LoadImmInstruction t dst imm) ID = (if ID < 1 then Some dst else None)"
| "getDst fn (SyncInstruction ps) ID = None"
| "getDst fn (LabelInstruction l) ID = None"

subsection \<open>The \<open>wellFormed\<close> methods\<close>

definition checkRegisterData :: "RegisterFamily \<Rightarrow> Register \<Rightarrow> Function \<Rightarrow> bool" where
  "checkRegisterData family ID fn =
     (if unat ID \<ge> regNum fn then False
      else if regs (regfile fn) ! unat ID \<noteq> family then False
      else True)"

definition checkSpecialRegForWrite :: "Externals \<Rightarrow> Register \<Rightarrow> Function \<Rightarrow> bool" where
  "checkSpecialRegForWrite ext reg fn =
     (if isSpecialReg ext fn reg \<and> reg \<noteq> ocl_stackptr ext then False else True)"

definition checkTypeFamily :: "Type \<Rightarrow> Type list \<Rightarrow> bool" where
  "checkTypeFamily type family = (type \<in> set family)"

definition allButBool :: "Type list" where
  "allButBool = [TYPE_S8, TYPE_U8, TYPE_S16, TYPE_U16, TYPE_S32, TYPE_U32, TYPE_FLOAT, TYPE_DOUBLE]"

definition logicalType :: "Type list" where
  "logicalType = [TYPE_S8, TYPE_U8, TYPE_S16, TYPE_U16, TYPE_S32, TYPE_U32, TYPE_BOOL]"

text \<open>
  The \<open>switch\<close> on the opcode at the end of \<open>NaryInstruction::wellFormed\<close>. For the
  floating-point opcodes the source checks the constant \<open>TYPE_FLOAT\<close> against the
  family \<open>{TYPE_FLOAT}\<close>, not the type of the instruction.
\<close>

definition naryCheckType :: "Opcode \<Rightarrow> Type \<Rightarrow> bool" where
  "naryCheckType opcode type =
     (if opcode \<in> {OP_OR, OP_XOR, OP_AND} then checkTypeFamily type logicalType
      else if opcode \<in> {OP_POW, OP_COS, OP_SIN, OP_RCP, OP_ABS, OP_RSQ, OP_SQR,
                         OP_RNDD, OP_RNDE, OP_RNDU, OP_RNDZ}
        then checkTypeFamily TYPE_FLOAT [TYPE_FLOAT]
      else checkTypeFamily type allButBool)"

fun checkSrcs :: "RegisterFamily \<Rightarrow> Register list \<Rightarrow> Function \<Rightarrow> bool" where
  "checkSrcs family [] fn = True"
| "checkSrcs family (src # srcs) fn =
     (if \<not> checkRegisterData family src fn then False else checkSrcs family srcs fn)"

definition NaryInstruction_wellFormed ::
  "Externals \<Rightarrow> Function \<Rightarrow> Opcode \<Rightarrow> Type \<Rightarrow> Register \<Rightarrow> Register list \<Rightarrow> bool" where
  "NaryInstruction_wellFormed ext fn opcode type dst src =
     (let family = getFamily ext type in
      if \<not> checkSpecialRegForWrite ext dst fn then False
      else if \<not> checkRegisterData family dst fn then False
      else if \<not> checkSrcs family src fn then False
      else naryCheckType opcode type)"

text \<open>
  A loop over the slots \<open>ids\<close> of a tuple that returns false at the first register
  failing \<open>chk\<close>; \<open>None\<close> when a slot lies outside the tuple vector.
\<close>

fun checkTuple :: "(Register \<Rightarrow> bool) \<Rightarrow> Function \<Rightarrow> Tuple \<Rightarrow> nat list \<Rightarrow> bool option" where
  "checkTuple chk fn t [] = Some True"
| "checkTuple chk fn t (i # ids) =
     (case getRegister fn t i of
        None \<Rightarrow> None
      | Some regID \<Rightarrow> if \<not> chk regID then Some False else checkTuple chk fn t ids)"

definition SelectInstruction_wellFormed ::
  "Externals \<Rightarrow> Function \<Rightarrow> Type \<Rightarrow> Register \<Rightarrow> Tuple \<Rightarrow> bool option" where
  "SelectInstruction_wellFormed ext fn type dst src =
     (let family = getFamily ext type in
      if \<not> checkSpecialRegForWrite ext dst fn then Some False
      else if \<not> checkRegisterData family dst fn then Some False
      else if unat src + 3 > tupleNum fn then Some False
      else (case checkTuple (\<lambda>regID. checkRegisterData FAMILY_BOOL regID fn) fn src [0] of
              None \<Rightarrow> None
            | Some False \<Rightarrow> Some False
            | Some True \<Rightarrow>
               (case checkTuple (\<lambda>regID. checkRegisterData family regID fn) fn src [1, 2] of
                  None \<Rightarrow> None
                | Some False \<Rightarrow> Some False
                | Some True \<Rightarrow> Some (checkTypeFamily type allButBool))))"

definition CompareInstruction_wellFormed ::
  "Externals \<Rightarrow> Function \<Rightarrow> Type \<Rightarrow> Register \<Rightarrow> Register list \<Rightarrow> bool" where
  "CompareInstruction_wellFormed ext fn type dst src =
     (if \<not> checkSpecialRegForWrite ext dst fn then False
      else if \<not> checkRegisterData FAMILY_BOOL dst fn then False
      else if \<not> checkSrcs (getFamily ext type) src fn then False
      else checkTypeFamily type allButBool)"

definition ConvertInstruction_wellFormed ::
  "Externals \<Rightarrow> Function \<Rightarrow> Type \<Rightarrow> Type \<Rightarrow> Register \<Rightarrow> Register \<Rightarrow> bool" where
  "ConvertInstruction_wellFormed ext fn dstType srcType dst src =
     (let dstFamily = getFamily ext dstType;
          srcFamily = getFamily ext srcType
      in if \<not> checkSpecialRegForWrite ext dst fn then False
         else if \<not> checkRegisterData dstFamily dst fn then False
         else if \<not> checkRegisterData srcFamily src fn then False
         else if \<not> checkTypeFamily dstType allButBool then False
         else checkTypeFamily srcType allButBool)"

definition wellFormedLoadStore ::
  "Externals \<Rightarrow> Function \<Rightarrow> Type \<Rightarrow> Tuple \<Rightarrow> Register \<Rightarrow> nat \<Rightarrow> bool option" where
  "wellFormedLoadStore ext fn type values offset valueNum =
     (if unat offset \<ge> regNum fn then Some False
      else if unat values + valueNum > tupleNum fn then Some False
      else (case checkTuple (\<lambda>regID. checkRegisterData (getFamily ext type) regID fn)
                   fn values [0..<valueNum] of
              None \<Rightarrow> None
            | Some False \<Rightarrow> Some False
            | Some True \<Rightarrow> Some (checkTypeFamily type allButBool)))"

definition MAX_SRC_NUM :: nat where "MAX_SRC_NUM = 8"
definition MAX_DST_NUM :: nat where "MAX_DST_NUM = 8"

definition LoadInstruction_wellFormed ::
  "Externals \<Rightarrow> Function \<Rightarrow> Type \<Rightarrow> Tuple \<Rightarrow> Register \<Rightarrow> nat \<Rightarrow> bool option" where
  "LoadInstruction_wellFormed ext fn type values offset valueNum =
     (let dstNum = valueNum in
      case checkTuple (\<lambda>reg. checkSpecialRegForWrite ext reg fn) fn values [0..<dstNum] of
        None \<Rightarrow> None
      | Some False \<Rightarrow> Some False
      | Some True \<Rightarrow>
          if dstNum > MAX_DST_NUM then Some False
          else wellFormedLoadStore ext fn type values offset valueNum)"

definition StoreInstruction_wellFormed ::
  "Externals \<Rightarrow> Function \<Rightarrow> Type \<Rightarrow> Tuple \<Rightarrow> Register \<Rightarrow> nat \<Rightarrow> bool option" where
  "StoreInstruction_wellFormed ext fn type values offset valueNum =
     (let srcNum = valueNum + 1 in
      if srcNum > MAX_SRC_NUM then Some False
      else wellFormedLoadStore ext fn type values offset valueNum)"

definition LoadImmInstruction_wellFormed ::
  "Externals \<Rightarrow> Function \<Rightarrow> Type \<Rightarrow> Register \<Rightarrow> ImmediateIndex \<Rightarrow> bool" where
  "LoadImmInstruction_wellFormed ext fn type dst immediateIndex =
     (if unat immediateIndex \<ge> immediateNum fn then False
      else if type \<noteq> immediates fn ! unat immediateIndex then False
      else if \<not> checkSpecialRegForWrite ext dst fn then False
      else if \<not> checkRegisterData (getFamily ext type) dst fn then False
      else checkTypeFamily type allButBool)"

definition SYNC_WORKGROUP_EXEC :: "32 word" where "SYNC_WORKGROUP_EXEC = push_bit 0 1"
definition SYNC_LOCAL_READ_FENCE :: "32 word" where "SYNC_LOCAL_READ_FENCE = push_bit 1 1"
definition SYNC_LOCAL_WRITE_FENCE :: "32 word" where "SYNC_LOCAL_WRITE_FENCE = push_bit 2 1"
definition SYNC_GLOBAL_READ_FENCE :: "32 word" where "SYNC_GLOBAL_READ_FENCE = push_bit 3 1"
definition SYNC_GLOBAL_WRITE_FENCE :: "32 word" where "SYNC_GLOBAL_WRITE_FENCE = push_bit 4 1"

definition maxParams :: "32 word" where
  "maxParams = SYNC_WORKGROUP_EXEC OR SYNC_LOCAL_READ_FENCE OR SYNC_LOCAL_WRITE_FENCE
               OR SYNC_GLOBAL_READ_FENCE OR SYNC_GLOBAL_WRITE_FENCE"

definition SyncInstruction_wellFormed :: "32 word \<Rightarrow> bool" where
  "SyncInstruction_wellFormed parameters =
     (if parameters > maxParams then False
      else if parameters = 0 then False
      else True)"

definition LabelInstruction_wellFormed :: "Function \<Rightarrow> LabelIndex \<Rightarrow> bool" where
  "LabelInstruction_wellFormed fn labelIndex =
     (if unat labelIndex \<ge> labelNum fn then False else True)"

definition BranchInstruction_wellFormed ::
  "Function \<Rightarrow> Register \<Rightarrow> LabelIndex \<Rightarrow> bool \<Rightarrow> bool \<Rightarrow> bool" where
  "BranchInstruction_wellFormed fn predicate labelIndex hasPredicate hasLabel =
     (if hasLabel \<and> unat labelIndex \<ge> labelNum fn then False
      else if hasPredicate \<and> \<not> checkRegisterData FAMILY_BOOL predicate fn then False
      else True)"

text \<open>
  \<open>Instruction::wellFormed\<close> dispatches on the class of the instruction. \<open>Some b\<close> is
  the boolean the method returns, \<open>None\<close> a read outside the tuple vector on the way.
\<close>

fun wellFormed :: "Externals \<Rightarrow> Function \<Rightarrow> Instruction \<Rightarrow> bool option" where
  "wellFormed ext fn (UnaryInstruction opc t dst src) =
     Some (NaryInstruction_wellFormed ext fn opc t dst [src])"
| "wellFormed ext fn (BinaryInstruction opc t dst src0 src1) =
     Some (NaryInstruction_wellFormed ext fn opc t dst [src0, src1])"
| "wellFormed ext fn (SelectInstruction t dst src) = SelectInstruction_wellFormed ext fn t dst src"
| "wellFormed ext fn (CompareInstruction opc t dst src0 src1) =
     Some (CompareInstruction_wellFormed ext fn t dst [src0, src1])"
| "wellFormed ext fn (ConvertInstruction dt st dst src) =
     Some (ConvertInstruction_wellFormed ext fn dt st dst src)"
| "wellFormed ext fn (BranchInstruction opc p l hasPredicate hasLabel) =
     Some (BranchInstruction_wellFormed fn p l hasPredicate hasLabel)"
| "wellFormed ext fn (LoadInstruction t values offset sp valueNum al) =
     LoadInstruction_wellFormed ext fn t values offset valueNum"
| "wellFormed ext fn (StoreInstruction t values offset sp valueNum al) =
     StoreInstruction_wellFormed ext fn t values offset valueNum"
| "wellFormed ext fn SampleInstruction = Some True"
| "wellFormed ext fn TypedWriteInstruction = Some True"
| "wellFormed ext fn (LoadImmInstruction t dst imm) =
     Some (LoadImmInstruction_wellFormed ext fn t dst imm)"
| "wellFormed ext fn (SyncInstruction ps) = Some (SyncInstruction_wellFormed ps)"
| "wellFormed ext fn (LabelInstruction l) = Some (LabelInstruction_wellFormed fn l)"

subsection \<open>What \<open>wellFormed\<close> guarantees\<close>

text \<open>
  The family that the opcode and type of an instruction require of source number \<open>ID\<close>
  and of its destinations, as the \<open>wellFormed\<close> methods state them: the type's family,
  except the boolean destination of a compare, the boolean first source of a select and
  the boolean predicate of a branch; a conversion has one type per side. \<open>None\<close>
  marks the address operand of a load or a store (\<open>offset\<close>), for which the methods
  name no family.
\<close>

fun srcFamily :: "Externals \<Rightarrow> Instruction \<Rightarrow> nat \<Rightarrow> RegisterFamily option" where
  "srcFamily ext (UnaryInstruction opc t dst src) ID = Some (getFamily ext t)"
| "srcFamily ext (BinaryInstruction opc t dst src0 src1) ID = Some (getFamily ext t)"
| "srcFamily ext (SelectInstruction t dst src) ID =
     (if ID = 0 then Some FAMILY_BOOL else Some (getFamily ext t))"
| "srcFamily ext (CompareInstruction opc t dst src0 src1) ID = Some (getFamily ext t)"
| "srcFamily ext (ConvertInstruction dt st dst src) ID = Some (getFamily ext st)"
| "srcFamily ext (BranchInstruction opc p l hasPredicate hasLabel) ID = Some FAMILY_BOOL"
| "srcFamily ext (LoadInstruction t values offset sp valueNum al) ID = None"
| "srcFamily ext (StoreInstruction t values offset sp valueNum al) ID =
     (if ID = 0 then None else Some (getFamily ext t))"
| "srcFamily ext insn ID = None"

fun dstFamily :: "Externals \<Rightarrow> Instruction \<Rightarrow> RegisterFamily" where
  "dstFamily ext (UnaryInstruction opc t dst src) = getFamily ext t"
| "dstFamily ext (BinaryInstruction opc t dst src0 src1) = getFamily ext t"
| "dstFamily ext (SelectInstruction t dst src) = getFamily ext t"
| "dstFamily ext (CompareInstruction opc t dst src0 src1) = FAMILY_BOOL"
| "dstFamily ext (ConvertInstruction dt st dst src) = getFamily ext dt"
| "dstFamily ext (LoadInstruction t values offset sp valueNum al) = getFamily ext t"
| "dstFamily ext (LoadImmInstruction t dst imm) = getFamily ext t"
| "dstFamily ext insn = FAMILY_BOOL"

text \<open>The tuple, label and immediate indices an instruction refers to lie in their tables.\<close>

fun indicesInBounds :: "Function \<Rightarrow> Instruction \<Rightarrow> bool" where
  "indicesInBounds fn (SelectInstruction t dst src) = (unat src + 3 \<le> tupleNum fn)"
| "indicesInBounds fn (LoadInstruction t values offset sp valueNum al) =
     (unat values + valueNum \<le> tupleNum fn)"
| "indicesInBounds fn (StoreInstruction t values offset sp valueNum al) =
     (unat values + valueNum \<le> tupleNum fn)"
| "indicesInBounds fn (LoadImmInstruction t dst imm) = (unat imm < immediateNum fn)"
| "indicesInBounds fn (LabelInstruction l) = (unat l < labelNum fn)"
| "indicesInBounds fn (BranchInstruction opc p l hasPredicate hasLabel) =
     (if hasLabel then unat l < labelNum fn else True)"
| "indicesInBounds fn insn = True"

text \<open>
  A destination register is in the register file, has the required family, and is not a
  special register other than the stack pointer.
\<close>

definition dstOK :: "Externals \<Rightarrow> Function \<Rightarrow> Instruction \<Rightarrow> Register \<Rightarrow> bool" where
  "dstOK ext fn insn r =
     (unat r < regNum fn \<and> regs (regfile fn) ! unat r = dstFamily ext insn
      \<and> (if isSpecialReg ext fn r then r = ocl_stackptr ext else True))"

lemma checkRegisterData_iff:
  "checkRegisterData family r fn = (unat r < regNum fn \<and> regs (regfile fn) ! unat r = family)"
  by (auto simp: checkRegisterData_def)

lemma checkSpecial_iff:
  "checkSpecialRegForWrite ext r fn = (isSpecialReg ext fn r \<longrightarrow> r = ocl_stackptr ext)"
  by (auto simp: checkSpecialRegForWrite_def)

lemma checkSrcs_iff:
  "checkSrcs family srcs fn = (\<forall>r \<in> set srcs. checkRegisterData family r fn)"
  by (induction srcs) auto

lemma checkTuple_True:
  "checkTuple chk fn t ids = Some True \<Longrightarrow>
   \<forall>i \<in> set ids. \<exists>r. getRegister fn t i = Some r \<and> chk r"
  by (induction ids) (auto split: option.splits if_splits)

text \<open>
  C5 (amended). For every IR instruction, \<open>wellFormed\<close> returns true only if every
  source and destination register is in bounds of the function's register file; every
  destination, and every source other than the address operand of a load or store, has
  the family required by the opcode and type (boolean destination for compares, boolean
  first source for select, boolean predicate for branches); every tuple, label and
  immediate index it refers to is in bounds; and no special register is written except the
  stack pointer. The address operand of a load or store is only checked to be in bounds.
\<close>

theorem C5_wellFormed_necessary:
  assumes "wellFormed ext fn insn = Some True"
  shows "(\<forall>ID < getDstNum insn. \<exists>r. getDst fn insn ID = Some r \<and> dstOK ext fn insn r)
       \<and> (\<forall>ID < getSrcNum insn. \<exists>r. getSrc fn insn ID = Some r \<and> unat r < regNum fn
             \<and> (\<forall>fam. srcFamily ext insn ID = Some fam \<longrightarrow> regs (regfile fn) ! unat r = fam))
       \<and> indicesInBounds fn insn"
proof (cases insn)
  case (UnaryInstruction opc t dst src)
  then show ?thesis using assms
    by (auto simp: NaryInstruction_wellFormed_def Let_def dstOK_def checkRegisterData_iff
        checkSpecial_iff split: if_splits)
next
  case (BinaryInstruction opc t dst src0 src1)
  then show ?thesis using assms
    by (auto simp: NaryInstruction_wellFormed_def Let_def dstOK_def checkRegisterData_iff
        checkSpecial_iff less_Suc_eq numeral_2_eq_2 split: if_splits)
next
  case (SelectInstruction t dst src)
  from assms have d: "checkSpecialRegForWrite ext dst fn" "checkRegisterData (getFamily ext t) dst fn"
    and tb: "unat src + 3 \<le> tupleNum fn"
    and p: "checkTuple (\<lambda>regID. checkRegisterData FAMILY_BOOL regID fn) fn src [0] = Some True"
    and v: "checkTuple (\<lambda>regID. checkRegisterData (getFamily ext t) regID fn) fn src [1, 2] = Some True"
    unfolding SelectInstruction
    by (auto simp: SelectInstruction_wellFormed_def Let_def split: if_splits option.splits bool.splits)
  have ids: "ID = 0 \<or> ID = 1 \<or> ID = 2" if "ID < 3" for ID :: nat
    using that by arith
  have srcs: "\<exists>r. getSrc fn insn ID = Some r \<and> unat r < regNum fn
          \<and> (\<forall>fam. srcFamily ext insn ID = Some fam \<longrightarrow> regs (regfile fn) ! unat r = fam)"
    if "ID < 3" for ID
    using ids [OF that] checkTuple_True [OF p] checkTuple_True [OF v]
    unfolding SelectInstruction by (auto simp: checkRegisterData_iff)
  have dsts: "\<forall>ID < getDstNum insn. \<exists>r. getDst fn insn ID = Some r \<and> dstOK ext fn insn r"
    unfolding SelectInstruction
    using d by (auto simp: dstOK_def checkRegisterData_iff checkSpecial_iff)
  have "indicesInBounds fn insn" "getSrcNum insn = 3"
    unfolding SelectInstruction using tb by auto
  with srcs dsts show ?thesis by simp
next
  case (CompareInstruction opc t dst src0 src1)
  then show ?thesis using assms
    by (auto simp: CompareInstruction_wellFormed_def Let_def dstOK_def checkRegisterData_iff
        checkSpecial_iff less_Suc_eq numeral_2_eq_2 split: if_splits)
next
  case (ConvertInstruction dt st dst src)
  then show ?thesis using assms
    by (auto simp: ConvertInstruction_wellFormed_def Let_def dstOK_def checkRegisterData_iff
        checkSpecial_iff split: if_splits)
next
  case (BranchInstruction opc p l hasPredicate hasLabel)
  then show ?thesis using assms
    by (auto simp: BranchInstruction_wellFormed_def checkRegisterData_iff split: if_splits)
next
  case (LoadInstruction t vals offset asp valueNum al)
  from assms have spc: "checkTuple (\<lambda>reg. checkSpecialRegForWrite ext reg fn) fn vals [0..<valueNum] = Some True"
     and ls: "wellFormedLoadStore ext fn t vals offset valueNum = Some True"
    unfolding LoadInstruction by (auto simp: LoadInstruction_wellFormed_def Let_def split: option.splits bool.splits if_splits)
  from ls have off: "unat offset < regNum fn" and tb: "unat vals + valueNum \<le> tupleNum fn"
    and fam: "checkTuple (\<lambda>regID. checkRegisterData (getFamily ext t) regID fn) fn vals [0..<valueNum] = Some True"
    by (auto simp: wellFormedLoadStore_def split: option.splits bool.splits if_splits)
  have dsts: "\<exists>r. getRegister fn vals ID = Some r \<and> dstOK ext fn insn r" if "ID < valueNum" for ID
  proof -
    from that have m: "ID \<in> set [0..<valueNum]" by simp
    from checkTuple_True [OF spc] m obtain r where
      r: "getRegister fn vals ID = Some r" "checkSpecialRegForWrite ext r fn" by blast
    from checkTuple_True [OF fam] m r have "checkRegisterData (getFamily ext t) r fn" by force
    with r show ?thesis
      unfolding LoadInstruction by (simp add: dstOK_def checkRegisterData_iff checkSpecial_iff)
  qed
  show ?thesis unfolding LoadInstruction
    using off tb dsts [unfolded LoadInstruction] by auto
next
  case (StoreInstruction t vals offset asp valueNum al)
  from assms have ls: "wellFormedLoadStore ext fn t vals offset valueNum = Some True"
    unfolding StoreInstruction by (auto simp: StoreInstruction_wellFormed_def Let_def split: if_splits)
  from ls have off: "unat offset < regNum fn" and tb: "unat vals + valueNum \<le> tupleNum fn"
    and fam: "checkTuple (\<lambda>regID. checkRegisterData (getFamily ext t) regID fn) fn vals [0..<valueNum] = Some True"
    by (auto simp: wellFormedLoadStore_def split: option.splits bool.splits if_splits)
  have "\<exists>r. getRegister fn vals (ID - 1) = Some r \<and> unat r < regNum fn \<and> regs (regfile fn) ! unat r = getFamily ext t"
    if "ID < valueNum + 1" "ID \<noteq> 0" for ID
    using checkTuple_True [OF fam] that by (auto simp: checkRegisterData_iff)
  then show ?thesis unfolding StoreInstruction
    using off tb by auto
next
  case (LoadImmInstruction t dst imm)
  then show ?thesis using assms
    by (auto simp: LoadImmInstruction_wellFormed_def dstOK_def checkRegisterData_iff
        checkSpecial_iff split: if_splits)
next
  case (LabelInstruction l)
  then show ?thesis using assms
    by (auto simp: LabelInstruction_wellFormed_def split: if_splits)
qed auto

text \<open>
  C6. For a sync instruction, \<open>wellFormed\<close> returns false exactly when the parameter
  bitmask is zero or strictly greater than the maximal mask, the OR of the five scope
  bits (31), and true for every value in between.
\<close>

theorem C6_sync_wellFormed:
  "(wellFormed ext fn (SyncInstruction ps) = Some False) = (ps = 0 \<or> maxParams < ps)
   \<and> (wellFormed ext fn (SyncInstruction ps) = Some True) = (0 < ps \<and> ps \<le> maxParams)
   \<and> maxParams = 31"
  by (auto simp: SyncInstruction_wellFormed_def maxParams_def SYNC_WORKGROUP_EXEC_def
      SYNC_LOCAL_READ_FENCE_def SYNC_LOCAL_WRITE_FENCE_def SYNC_GLOBAL_READ_FENCE_def
      SYNC_GLOBAL_WRITE_FENCE_def word_neq_0_conv)


subsection \<open>An example function\<close>

text \<open>
  An instance of the parameters for the examples: a map from types to families by size,
  two special registers of which register 1 is the stack pointer. The function has five
  registers, register 2 of a family to choose, and one tuple \<open>{%3, %4}\<close>; the
  instruction is \<open>load.u32.global {%3 %4} %2\<close>.
\<close>

definition exampleGetFamily :: "Type \<Rightarrow> RegisterFamily" where
  "exampleGetFamily t =
     (case t of
        TYPE_BOOL \<Rightarrow> FAMILY_BOOL
      | TYPE_S8 \<Rightarrow> FAMILY_BYTE | TYPE_U8 \<Rightarrow> FAMILY_BYTE
      | TYPE_S16 \<Rightarrow> FAMILY_WORD | TYPE_U16 \<Rightarrow> FAMILY_WORD | TYPE_HALF \<Rightarrow> FAMILY_WORD
      | TYPE_S32 \<Rightarrow> FAMILY_DWORD | TYPE_U32 \<Rightarrow> FAMILY_DWORD | TYPE_FLOAT \<Rightarrow> FAMILY_DWORD
      | TYPE_S64 \<Rightarrow> FAMILY_QWORD | TYPE_U64 \<Rightarrow> FAMILY_QWORD | TYPE_DOUBLE \<Rightarrow> FAMILY_QWORD)"

definition exampleExternals :: Externals where
  "exampleExternals = \<lparr>getFamily = exampleGetFamily, ocl_regNum = 2, ocl_stackptr = 1\<rparr>"

definition exampleFn :: "RegisterFamily \<Rightarrow> Function" where
  "exampleFn addressFamily =
     \<lparr>labels = [], immediates = [], blocks = [],
      regfile = \<lparr>regs = [FAMILY_DWORD, FAMILY_DWORD, addressFamily, FAMILY_DWORD, FAMILY_DWORD],
                 regTuples = [3, 4]\<rparr>,
      profile = PROFILE_OCL\<rparr>"

definition exampleLoad :: Instruction where
  "exampleLoad = LoadInstruction TYPE_U32 0 2 MEM_GLOBAL 2 True"

lemmas wellFormed_eval =
  LoadInstruction_wellFormed_def wellFormedLoadStore_def getRegister_def tupleNum_def regNum_def
  checkRegisterData_def checkSpecialRegForWrite_def isSpecialReg_def getFirstSpecialReg_def
  getSpecialRegNum_def checkTypeFamily_def allButBool_def MAX_DST_NUM_def Let_def
  exampleFn_def exampleLoad_def exampleExternals_def exampleGetFamily_def

lemma exampleLoad_wellFormed:
  "wellFormed exampleExternals (exampleFn fam) exampleLoad = Some True"
  by (simp add: wellFormed_eval upt_conv_Cons)

text \<open>
  C5, counterexample to the claim as stated (every source register has the family that
  opcode and type require). The same load is well formed in two functions that differ
  only in the family of its address register, boolean in one and qword in the other: no
  family is required of the address operand, so whatever family opcode and type would
  require of it, one of the two well-formed instances does not have it.
\<close>

theorem C5_address_family_unchecked:
  "wellFormed exampleExternals (exampleFn FAMILY_BOOL) exampleLoad = Some True
   \<and> wellFormed exampleExternals (exampleFn FAMILY_QWORD) exampleLoad = Some True
   \<and> getSrc (exampleFn FAMILY_BOOL) exampleLoad 0 = Some 2
   \<and> getSrc (exampleFn FAMILY_QWORD) exampleLoad 0 = Some 2
   \<and> regs (regfile (exampleFn FAMILY_BOOL)) ! unat (2 :: Register) = FAMILY_BOOL
   \<and> regs (regfile (exampleFn FAMILY_QWORD)) ! unat (2 :: Register) = FAMILY_QWORD"
  by (simp add: exampleLoad_wellFormed) (simp add: exampleFn_def exampleLoad_def)

text \<open>
  C5, witness: the example load with a dword address register is well formed, and the
  guarantees hold for it.
\<close>

theorem C5_wellFormed_necessary_witness:
  "wellFormed exampleExternals (exampleFn FAMILY_DWORD) exampleLoad = Some True
   \<and> indicesInBounds (exampleFn FAMILY_DWORD) exampleLoad
   \<and> (\<exists>r. getDst (exampleFn FAMILY_DWORD) exampleLoad 1 = Some r
            \<and> dstOK exampleExternals (exampleFn FAMILY_DWORD) exampleLoad r)
   \<and> (\<exists>r. getSrc (exampleFn FAMILY_DWORD) exampleLoad 0 = Some r
            \<and> unat r < regNum (exampleFn FAMILY_DWORD))"
proof -
  have h: "wellFormed exampleExternals (exampleFn FAMILY_DWORD) exampleLoad = Some True"
    by (rule exampleLoad_wellFormed)
  have n: "(1::nat) < getDstNum exampleLoad" "(0::nat) < getSrcNum exampleLoad"
    by (simp_all add: exampleLoad_def)
  from C5_wellFormed_necessary [OF h] n h show ?thesis by blast
qed


section \<open>Label sorting and the control flow graph (ir/function.cpp)\<close>

subsection \<open>\<open>Function::sortLabels\<close>\<close>

text \<open>
  \<open>foreachInstruction\<close> visits the blocks in order and the instructions of each block
  in order. An opcode test selects the class: an instruction has opcode \<open>OP_LABEL\<close>
  exactly when it is a \<open>LabelInstruction\<close>, and opcode \<open>OP_BRA\<close> exactly when it is a
  \<open>BranchInstruction\<close> whose opcode field is \<open>OP_BRA\<close>. \<open>newInsn.replace(&insn)\<close> puts
  the new instruction at the place of the old one in the same block.

  First pass: every label instruction is replaced by \<open>LABEL(LabelIndex(last))\<close> and
  \<open>labelMap.insert\<close> records old index \<open>\<mapsto>\<close> new index; \<open>insert\<close> keeps an entry
  that is already there. The counter \<open>last\<close> of the source, here \<open>lastLabel\<close>, is a
  \<open>uint32_t\<close>; the label index is its low 16 bits.
\<close>

type_synonym LabelMap = "LabelIndex \<rightharpoonup> LabelIndex"

definition map_insert :: "LabelMap \<Rightarrow> LabelIndex \<Rightarrow> LabelIndex \<Rightarrow> LabelMap" where
  "map_insert labelMap k v = (if labelMap k = None then labelMap(k \<mapsto> v) else labelMap)"

fun relabelInsns ::
  "Instruction list \<Rightarrow> 32 word \<Rightarrow> LabelMap \<Rightarrow> Instruction list \<times> 32 word \<times> LabelMap" where
  "relabelInsns [] lastLabel labelMap = ([], lastLabel, labelMap)"
| "relabelInsns (LabelInstruction index # rest) lastLabel labelMap =
     (let newLabel = LABEL (ucast lastLabel);
          (rest', lastLabel', labelMap') =
             relabelInsns rest (lastLabel + 1) (map_insert labelMap index (ucast lastLabel))
      in (newLabel # rest', lastLabel', labelMap'))"
| "relabelInsns (insn # rest) lastLabel labelMap =
     (let (rest', lastLabel', labelMap') = relabelInsns rest lastLabel labelMap
      in (insn # rest', lastLabel', labelMap'))"

fun relabelBlocks ::
  "BasicBlock list \<Rightarrow> 32 word \<Rightarrow> LabelMap \<Rightarrow> BasicBlock list \<times> 32 word \<times> LabelMap" where
  "relabelBlocks [] lastLabel labelMap = ([], lastLabel, labelMap)"
| "relabelBlocks (bb # bbs) lastLabel labelMap =
     (let (is', last1, labelMap1) = relabelInsns (insns bb) lastLabel labelMap;
          (bbs', last2, labelMap2) = relabelBlocks bbs last1 labelMap1
      in (bb\<lparr>insns := is'\<rparr> # bbs', last2, labelMap2))"

text \<open>
  Second pass: every \<open>OP_BRA\<close> is replaced by a branch to \<open>labelMap.find(index)->second\<close>,
  with the same predicate if it has one. \<open>None\<close>: \<open>getLabelIndex\<close> asserts on a
  branch without label, and \<open>find\<close> of an index that no label instruction carried
  returns \<open>end()\<close>, which is then dereferenced.
\<close>

fun patchInsn :: "LabelMap \<Rightarrow> Instruction \<Rightarrow> Instruction option" where
  "patchInsn labelMap (BranchInstruction opc p index hasPredicate hasLabel) =
     (if opc \<noteq> OP_BRA then Some (BranchInstruction opc p index hasPredicate hasLabel)
      else if \<not> hasLabel then None
      else (case labelMap index of
              None \<Rightarrow> None
            | Some newIndex \<Rightarrow>
                if hasPredicate then Some (BRA_pred newIndex p) else Some (BRA newIndex)))"
| "patchInsn labelMap insn = Some insn"

fun patchInsns :: "LabelMap \<Rightarrow> Instruction list \<Rightarrow> Instruction list option" where
  "patchInsns labelMap [] = Some []"
| "patchInsns labelMap (insn # rest) =
     (case patchInsn labelMap insn of
        None \<Rightarrow> None
      | Some insn' \<Rightarrow>
          (case patchInsns labelMap rest of
             None \<Rightarrow> None
           | Some rest' \<Rightarrow> Some (insn' # rest')))"

fun patchBlocks :: "LabelMap \<Rightarrow> BasicBlock list \<Rightarrow> BasicBlock list option" where
  "patchBlocks labelMap [] = Some []"
| "patchBlocks labelMap (bb # bbs) =
     (case patchInsns labelMap (insns bb) of
        None \<Rightarrow> None
      | Some is' \<Rightarrow>
          (case patchBlocks labelMap bbs of
             None \<Rightarrow> None
           | Some bbs' \<Rightarrow> Some (bb\<lparr>insns := is'\<rparr> # bbs')))"

text \<open>
  Third pass: \<open>labels.resize(last)\<close>, then for every block \<open>labels[index] = &bb\<close> with
  the label index of its first instruction. \<open>None\<close>: \<open>getFirstInstruction\<close> asserts on
  an empty block, the pointer \<open>cast\<close> of a first instruction that is no label is NULL
  and is dereferenced, and an index outside \<open>labels\<close> is a write outside the vector.
  The list \<open>ids\<close> holds the positions of the blocks still to visit.
\<close>

definition resize :: "'a list \<Rightarrow> nat \<Rightarrow> 'a \<Rightarrow> 'a list" where
  "resize xs n x = take n xs @ replicate (n - length xs) x"

fun resetLabels :: "BasicBlock list \<Rightarrow> nat list \<Rightarrow> nat option list \<Rightarrow> nat option list option" where
  "resetLabels bbs [] labs = Some labs"
| "resetLabels bbs (b # ids) labs =
     (case insns (bbs ! b) of
        [] \<Rightarrow> None
      | LabelInstruction index # rest \<Rightarrow>
          if unat index < length labs then resetLabels bbs ids (labs[unat index := Some b])
          else None
      | _ \<Rightarrow> None)"

definition sortLabels :: "Function \<Rightarrow> Function option" where
  "sortLabels fn =
     (let (bbs1, lastLabel, labelMap) = relabelBlocks (blocks fn) 0 Map.empty
      in case patchBlocks labelMap bbs1 of
           None \<Rightarrow> None
         | Some bbs2 \<Rightarrow>
             (case resetLabels bbs2 [0..<length bbs2] (resize (labels fn) (unat lastLabel) None) of
                None \<Rightarrow> None
              | Some labs \<Rightarrow> Some (fn\<lparr>labels := labs, blocks := bbs2\<rparr>)))"

subsection \<open>\<open>Function::computeCFG\<close>\<close>

text \<open>
  The blocks are the store; a block pointer is a position in it. The first
  \<open>foreachBlock\<close> clears the two sets of every block and links each block with the one
  before it; \<open>prev\<close> is the block visited last. \<open>ids\<close> holds the positions still to
  visit.
\<close>

fun clearCFG :: "nat list \<Rightarrow> nat option \<Rightarrow> BasicBlock list \<Rightarrow> BasicBlock list" where
  "clearCFG [] prev bbs = bbs"
| "clearCFG (b # ids) prev bbs =
     (let bbs1 = bbs[b := (bbs ! b)\<lparr>predecessors := {}, successors := {}\<rparr>];
          bbs2 = (case prev of
                    None \<Rightarrow> bbs1
                  | Some p \<Rightarrow>
                      (let bbs' = bbs1[p := (bbs1 ! p)\<lparr>nextBlock := Some b\<rparr>]
                       in bbs'[b := (bbs' ! b)\<lparr>prevBlock := Some p\<rparr>]))
      in clearCFG ids (Some b) bbs2)"

text \<open>
  \<open>addEdge a b\<close>: \<open>a->successors.insert(b)\<close> and \<open>b->predecessors.insert(a)\<close>.
\<close>

definition addEdge :: "nat \<Rightarrow> nat \<Rightarrow> BasicBlock list \<Rightarrow> BasicBlock list" where
  "addEdge a b bbs =
     (let bbs' = bbs[a := (bbs ! a)\<lparr>successors := insert b (successors (bbs ! a))\<rparr>]
      in bbs'[b := (bbs' ! b)\<lparr>predecessors := insert a (predecessors (bbs' ! b))\<rparr>])"

text \<open>
  The second \<open>foreachBlock\<close>. \<open>jumpToNext\<close> is the block that falls through into the
  block visited next. The target of a branch is \<open>this->blocks[label]\<close>, the block at
  position \<open>label\<close>; \<open>None\<close> when that position is outside \<open>blocks\<close>, or when
  \<open>getLabelIndex\<close> asserts on a branch without label.
\<close>

fun updateCFG :: "nat list \<Rightarrow> nat option \<Rightarrow> BasicBlock list \<Rightarrow> BasicBlock list option" where
  "updateCFG [] jumpToNext bbs = Some bbs"
| "updateCFG (b # ids) jumpToNext bbs =
     (let bbs1 = (case jumpToNext of None \<Rightarrow> bbs | Some j \<Rightarrow> addEdge j b bbs)
      in if insns (bbs1 ! b) = [] then updateCFG ids None bbs1
         else (case last (insns (bbs1 ! b)) of
                 BranchInstruction opc p label hasPredicate hasLabel \<Rightarrow>
                   if opc = OP_BRA then
                     (if \<not> hasLabel then None
                      else if unat label \<ge> length bbs1 then None
                      else updateCFG ids (if hasPredicate then Some b else None)
                             (addEdge b (unat label) bbs1))
                   else updateCFG ids None bbs1
               | _ \<Rightarrow> updateCFG ids (Some b) bbs1))"

definition computeCFG :: "Function \<Rightarrow> Function option" where
  "computeCFG fn =
     (let ids = [0..<length (blocks fn)]
      in case updateCFG ids None (clearCFG ids None (blocks fn)) of
           None \<Rightarrow> None
         | Some bbs \<Rightarrow> Some (fn\<lparr>blocks := bbs\<rparr>))"

subsection \<open>The control flow graph that \<open>computeCFG\<close> builds\<close>

text \<open>
  The successors that \<open>computeCFG\<close> computes, read off the instruction lists
  \<open>iss\<close> of the blocks alone: for a final \<open>OP_BRA\<close> the block at the position of its
  label index, which is what \<open>this->blocks[label]\<close> reads, and the textually next
  block when the block is not empty and its last instruction is no branch instruction or
  is a predicated \<open>OP_BRA\<close>. An empty block and a block ending in another branch
  instruction (\<open>OP_RET\<close>) have no successor.
\<close>

fun isBranchInstruction :: "Instruction \<Rightarrow> bool" where
  "isBranchInstruction (BranchInstruction opc p label hasPredicate hasLabel) = True"
| "isBranchInstruction insn = False"

definition positionTarget :: "Instruction list \<Rightarrow> nat set" where
  "positionTarget is =
     (if is = [] then {}
      else (case last is of
              BranchInstruction opc p label hasPredicate hasLabel \<Rightarrow>
                if opc = OP_BRA then {unat label} else {}
            | _ \<Rightarrow> {}))"

definition fallsThrough :: "Instruction list \<Rightarrow> bool" where
  "fallsThrough is =
     (if is = [] then False
      else (case last is of
              BranchInstruction opc p label hasPredicate hasLabel \<Rightarrow> opc = OP_BRA \<and> hasPredicate
            | _ \<Rightarrow> True))"

definition positionSuccessors :: "Instruction list list \<Rightarrow> nat \<Rightarrow> nat set" where
  "positionSuccessors iss i =
     positionTarget (iss ! i) \<union> (if fallsThrough (iss ! i) \<and> i + 1 < length iss then {i + 1} else {})"


lemma nth_upd: "(xs[a := v]) ! i = (if i = a \<and> a < length xs then v else xs ! i)"
  by (cases "a < length xs") (auto simp: nth_list_update list_update_beyond)

lemma length_clearCFG [simp]: "length (clearCFG ids prev bbs) = length bbs"
  by (induction ids arbitrary: prev bbs) (auto simp: Let_def split: option.splits)

lemma insns_clearCFG:
  "i < length bbs \<Longrightarrow> insns (clearCFG ids prev bbs ! i) = insns (bbs ! i)"
  by (induction ids arbitrary: prev bbs)
     (auto simp: Let_def nth_upd split: option.splits)

lemma successors_clearCFG:
  "i < length bbs \<Longrightarrow>
   successors (clearCFG ids prev bbs ! i) = (if i \<in> set ids then {} else successors (bbs ! i))"
  by (induction ids arbitrary: prev bbs)
     (auto simp: Let_def nth_upd split: option.splits)

lemma predecessors_clearCFG:
  "i < length bbs \<Longrightarrow>
   predecessors (clearCFG ids prev bbs ! i) = (if i \<in> set ids then {} else predecessors (bbs ! i))"
  by (induction ids arbitrary: prev bbs)
     (auto simp: Let_def nth_upd split: option.splits)

lemma length_addEdge [simp]: "length (addEdge a b bbs) = length bbs"
  by (simp add: addEdge_def Let_def)

lemma insns_addEdge [simp]:
  "i < length bbs \<Longrightarrow> insns (addEdge a b bbs ! i) = insns (bbs ! i)"
  by (auto simp: addEdge_def Let_def nth_upd)

lemma successors_addEdge:
  "i < length bbs \<Longrightarrow> a < length bbs \<Longrightarrow>
   successors (addEdge a b bbs ! i) = (if i = a then insert b (successors (bbs ! i)) else successors (bbs ! i))"
  by (auto simp: addEdge_def Let_def nth_upd)

lemma predecessors_addEdge:
  "i < length bbs \<Longrightarrow> b < length bbs \<Longrightarrow>
   predecessors (addEdge a b bbs ! i) = (if i = b then insert a (predecessors (bbs ! i)) else predecessors (bbs ! i))"
  by (auto simp: addEdge_def Let_def nth_upd)

text \<open>
  The blocks on which \<open>computeCFG\<close> neither asserts nor reads outside \<open>blocks\<close>: a
  final \<open>OP_BRA\<close> has a label, and the label is the position of a block.
\<close>

definition blockOK :: "nat \<Rightarrow> Instruction list \<Rightarrow> bool" where
  "blockOK n is =
     (if is = [] then True
      else (case last is of
              BranchInstruction opc p label hasPredicate hasLabel \<Rightarrow>
                if opc = OP_BRA then hasLabel \<and> unat label < n else True
            | _ \<Rightarrow> True))"

definition targetsInRange :: "Function \<Rightarrow> bool" where
  "targetsInRange fn = list_all (\<lambda>bb. blockOK (length (blocks fn)) (insns bb)) (blocks fn)"

text \<open>
  The loop invariant of \<open>updateCFG\<close> when it reaches block \<open>k\<close>: the blocks before
  \<open>k\<close> have their branch targets, and their fall-through edge if it ends before
  \<open>m\<close>; the predecessor sets are the converse of the successor sets.
\<close>

definition cfgSets :: "Instruction list list \<Rightarrow> nat \<Rightarrow> nat \<Rightarrow> BasicBlock list \<Rightarrow> bool" where
  "cfgSets iss k m bbs =
     (length bbs = length iss
      \<and> (\<forall>i < length iss.
            insns (bbs ! i) = iss ! i
          \<and> successors (bbs ! i) =
              (if i < k then positionTarget (iss ! i) \<union> (if fallsThrough (iss ! i) \<and> i + 1 < m then {i + 1} else {})
               else {})
          \<and> predecessors (bbs ! i) = {a. a < length iss \<and> i \<in> successors (bbs ! a)}))"

definition pending :: "Instruction list list \<Rightarrow> nat \<Rightarrow> nat option" where
  "pending iss k = (if 0 < k \<and> fallsThrough (iss ! (k - 1)) then Some (k - 1) else None)"

lemma cfgInv_addEdge_pred:
  assumes "a < length bbs" "b < length bbs"
    and "\<forall>i < length bbs. predecessors (bbs ! i) = {x. x < length bbs \<and> i \<in> successors (bbs ! x)}"
    and "i < length bbs"
  shows "predecessors (addEdge a b bbs ! i) = {x. x < length bbs \<and> i \<in> successors (addEdge a b bbs ! x)}"
  using assms by (auto simp: successors_addEdge predecessors_addEdge split: if_splits)

lemma cfgSets_fallthrough:
  assumes "cfgSets iss k k bbs" "k < length iss"
  shows "cfgSets iss k (Suc k) (case pending iss k of None \<Rightarrow> bbs | Some j \<Rightarrow> addEdge j k bbs)"
proof (cases "0 < k \<and> fallsThrough (iss ! (k - 1))")
  case False
  then have "pending iss k = None" by (simp add: pending_def)
  moreover have "cfgSets iss k (Suc k) bbs"
    using assms False unfolding cfgSets_def
    by (auto simp: less_Suc_eq)
  ultimately show ?thesis by simp
next
  case True
  then have p: "pending iss k = Some (k - 1)" by (simp add: pending_def)
  have len: "length bbs = length iss" using assms by (simp add: cfgSets_def)
  have km: "k - 1 < length bbs" "k < length bbs" using assms len by auto
  have pre: "\<forall>i < length bbs. predecessors (bbs ! i) = {x. x < length bbs \<and> i \<in> successors (bbs ! x)}"
    using assms len by (simp add: cfgSets_def)
  have "cfgSets iss k (Suc k) (addEdge (k - 1) k bbs)"
    unfolding cfgSets_def
  proof (intro conjI allI impI)
    show "length (addEdge (k - 1) k bbs) = length iss" using len by simp
  next
    fix i assume i: "i < length iss"
    then show "insns (addEdge (k - 1) k bbs ! i) = iss ! i"
      using assms len by (simp add: cfgSets_def)
    show "successors (addEdge (k - 1) k bbs ! i) =
       (if i < k then positionTarget (iss ! i) \<union> (if fallsThrough (iss ! i) \<and> i + 1 < Suc k then {i + 1} else {})
        else {})"
      using assms i len km True
      by (auto simp: cfgSets_def successors_addEdge less_Suc_eq)
    show "predecessors (addEdge (k - 1) k bbs ! i) = {a. a < length iss \<and> i \<in> successors (addEdge (k - 1) k bbs ! a)}"
      using cfgInv_addEdge_pred [OF km pre] i len by simp
  qed
  with p show ?thesis by simp
qed

lemma cfgSets_no_target:
  assumes "cfgSets iss k (Suc k) bbs" "k < length iss" "positionTarget (iss ! k) = {}"
  shows "cfgSets iss (Suc k) (Suc k) bbs"
  using assms unfolding cfgSets_def by (auto simp: less_Suc_eq)

lemma cfgSets_target:
  assumes "cfgSets iss k (Suc k) bbs" "k < length iss" "positionTarget (iss ! k) = {t}" "t < length iss"
  shows "cfgSets iss (Suc k) (Suc k) (addEdge k t bbs)"
proof -
  have len: "length bbs = length iss" using assms by (simp add: cfgSets_def)
  have km: "k < length bbs" "t < length bbs" using assms len by auto
  have pre: "\<forall>i < length bbs. predecessors (bbs ! i) = {x. x < length bbs \<and> i \<in> successors (bbs ! x)}"
    using assms len by (simp add: cfgSets_def)
  show ?thesis
    unfolding cfgSets_def
  proof (intro conjI allI impI)
    show "length (addEdge k t bbs) = length iss" using len by simp
  next
    fix i assume i: "i < length iss"
    then show "insns (addEdge k t bbs ! i) = iss ! i"
      using assms len by (simp add: cfgSets_def)
    show "successors (addEdge k t bbs ! i) =
       (if i < Suc k then positionTarget (iss ! i) \<union> (if fallsThrough (iss ! i) \<and> i + 1 < Suc k then {i + 1} else {})
        else {})"
      using assms i len km
      by (auto simp: cfgSets_def successors_addEdge less_Suc_eq)
    show "predecessors (addEdge k t bbs ! i) = {a. a < length iss \<and> i \<in> successors (addEdge k t bbs ! a)}"
      using cfgInv_addEdge_pred [OF km pre] i len by simp
  qed
qed

lemma updateCFG_Cons_unfold:
  "updateCFG (b # ids) j bbs =
     (if insns ((case j of None \<Rightarrow> bbs | Some jn \<Rightarrow> addEdge jn b bbs) ! b) = []
      then updateCFG ids None (case j of None \<Rightarrow> bbs | Some jn \<Rightarrow> addEdge jn b bbs)
      else (case last (insns ((case j of None \<Rightarrow> bbs | Some jn \<Rightarrow> addEdge jn b bbs) ! b)) of
              BranchInstruction opc p label hasPredicate hasLabel \<Rightarrow>
                if opc = OP_BRA then
                  (if \<not> hasLabel then None
                   else if unat label \<ge> length (case j of None \<Rightarrow> bbs | Some jn \<Rightarrow> addEdge jn b bbs) then None
                   else updateCFG ids (if hasPredicate then Some b else None)
                          (addEdge b (unat label) (case j of None \<Rightarrow> bbs | Some jn \<Rightarrow> addEdge jn b bbs)))
                else updateCFG ids None (case j of None \<Rightarrow> bbs | Some jn \<Rightarrow> addEdge jn b bbs)
            | _ \<Rightarrow> updateCFG ids (Some b) (case j of None \<Rightarrow> bbs | Some jn \<Rightarrow> addEdge jn b bbs)))"
  by (simp add: Let_def)

lemma updateCFG_step_ok:
  assumes "cfgSets iss k k bbs" "k < length iss" "blockOK (length iss) (iss ! k)"
  shows "\<exists>bbs2. updateCFG (k # ids) (pending iss k) bbs = updateCFG ids (pending iss (Suc k)) bbs2
               \<and> cfgSets iss (Suc k) (Suc k) bbs2"
proof -
  define bbs1 where "bbs1 = (case pending iss k of None \<Rightarrow> bbs | Some j \<Rightarrow> addEdge j k bbs)"
  have mid: "cfgSets iss k (Suc k) bbs1"
    unfolding bbs1_def by (rule cfgSets_fallthrough [OF assms(1,2)])
  then have ins: "insns (bbs1 ! k) = iss ! k" and len: "length bbs1 = length iss"
    using assms(2) by (auto simp: cfgSets_def)
  note unf = updateCFG_Cons_unfold [of k ids "pending iss k" bbs, folded bbs1_def, unfolded ins len]
  show ?thesis
  proof (cases "iss ! k = []")
    case True
    then have "cfgSets iss (Suc k) (Suc k) bbs1"
      using cfgSets_no_target [OF mid assms(2)] by (simp add: positionTarget_def)
    moreover have "pending iss (Suc k) = None"
      using True by (simp add: pending_def fallsThrough_def)
    then have "updateCFG (k # ids) (pending iss k) bbs = updateCFG ids (pending iss (Suc k)) bbs1"
      using True unf by simp
    ultimately show ?thesis by blast
  next
    case False
    show ?thesis
    proof (cases "\<exists>p label hasPredicate hasLabel. last (iss ! k) = BranchInstruction OP_BRA p label hasPredicate hasLabel")
      case True
      then obtain p label hasPredicate hasLabel where
        l: "last (iss ! k) = BranchInstruction OP_BRA p label hasPredicate hasLabel" by blast
      from assms(3) False l have ok: "hasLabel" "unat label < length iss"
        by (auto simp: blockOK_def)
      have bt: "positionTarget (iss ! k) = {unat label}"
        using False l by (simp add: positionTarget_def)
      have "cfgSets iss (Suc k) (Suc k) (addEdge k (unat label) bbs1)"
        by (rule cfgSets_target [OF mid assms(2) bt ok(2)])
      moreover have "pending iss (Suc k) = (if hasPredicate then Some k else None)"
        using False l by (simp add: pending_def fallsThrough_def)
      then have "updateCFG (k # ids) (pending iss k) bbs
           = updateCFG ids (pending iss (Suc k)) (addEdge k (unat label) bbs1)"
        using False l ok unf by simp
      ultimately show ?thesis by blast
    next
      case nb: False
      have bt: "positionTarget (iss ! k) = {}"
        using False nb by (auto simp: positionTarget_def split: Instruction.splits)
      have c: "cfgSets iss (Suc k) (Suc k) bbs1"
        by (rule cfgSets_no_target [OF mid assms(2) bt])
      have "updateCFG (k # ids) (pending iss k) bbs = updateCFG ids (pending iss (Suc k)) bbs1"
        using False nb unf
        by (cases "last (iss ! k)") (auto simp: pending_def fallsThrough_def)
      with c show ?thesis by blast
    qed
  qed
qed

lemma updateCFG_step_bad:
  assumes "cfgSets iss k k bbs" "k < length iss" "\<not> blockOK (length iss) (iss ! k)"
  shows "updateCFG (k # ids) (pending iss k) bbs = None"
proof -
  define bbs1 where "bbs1 = (case pending iss k of None \<Rightarrow> bbs | Some j \<Rightarrow> addEdge j k bbs)"
  have mid: "cfgSets iss k (Suc k) bbs1"
    unfolding bbs1_def by (rule cfgSets_fallthrough [OF assms(1,2)])
  then have ins: "insns (bbs1 ! k) = iss ! k" and len: "length bbs1 = length iss"
    using assms(2) by (auto simp: cfgSets_def)
  note unf = updateCFG_Cons_unfold [of k ids "pending iss k" bbs, folded bbs1_def, unfolded ins len]
  from assms(3) show ?thesis
    using unf
    by (cases "last (iss ! k)") (auto simp: blockOK_def split: if_splits)
qed

lemma updateCFG_Some:
  "ids = [k..<length iss] \<Longrightarrow> k \<le> length iss \<Longrightarrow> cfgSets iss k k bbs \<Longrightarrow>
   updateCFG ids (pending iss k) bbs = Some bbs' \<Longrightarrow>
   cfgSets iss (length iss) (length iss) bbs' \<and> (\<forall>i \<in> {k..<length iss}. blockOK (length iss) (iss ! i))"
proof (induction ids arbitrary: k bbs)
  case Nil
  from Nil.prems(1) [symmetric] Nil.prems(2) have "k = length iss" by auto
  with Nil show ?case by simp
next
  case (Cons b ids)
  from Cons.prems(1) [symmetric] have k: "k < length iss" and b: "b = k" and ids: "ids = [Suc k..<length iss]"
    by (auto simp: upt_eq_Cons_conv)
  have ok: "blockOK (length iss) (iss ! k)"
    using updateCFG_step_bad [OF Cons.prems(3) k, of ids] Cons.prems(4) b by auto
  from updateCFG_step_ok [OF Cons.prems(3) k ok, of ids] obtain bbs2 where
    s: "updateCFG (k # ids) (pending iss k) bbs = updateCFG ids (pending iss (Suc k)) bbs2"
    and c: "cfgSets iss (Suc k) (Suc k) bbs2" by blast
  have "cfgSets iss (length iss) (length iss) bbs' \<and> (\<forall>i \<in> {Suc k..<length iss}. blockOK (length iss) (iss ! i))"
    using Cons.IH [OF ids _ c] k s Cons.prems(4) b by simp
  moreover have "i = k \<or> Suc k \<le> i" if "k \<le> i" for i
    using that by arith
  ultimately show ?case
    using ok by (metis atLeastLessThan_iff)
qed

lemma updateCFG_not_None:
  "ids = [k..<length iss] \<Longrightarrow> k \<le> length iss \<Longrightarrow> cfgSets iss k k bbs \<Longrightarrow>
   \<forall>i \<in> {k..<length iss}. blockOK (length iss) (iss ! i) \<Longrightarrow>
   updateCFG ids (pending iss k) bbs \<noteq> None"
proof (induction ids arbitrary: k bbs)
  case Nil
  then show ?case by simp
next
  case (Cons b ids)
  from Cons.prems(1) [symmetric] have k: "k < length iss" and b: "b = k" and ids: "ids = [Suc k..<length iss]"
    by (auto simp: upt_eq_Cons_conv)
  have ok: "blockOK (length iss) (iss ! k)" using Cons.prems(4) k by simp
  from updateCFG_step_ok [OF Cons.prems(3) k ok, of ids] obtain bbs2 where
    s: "updateCFG (k # ids) (pending iss k) bbs = updateCFG ids (pending iss (Suc k)) bbs2"
    and c: "cfgSets iss (Suc k) (Suc k) bbs2" by blast
  have "updateCFG ids (pending iss (Suc k)) bbs2 \<noteq> None"
    using Cons.IH [OF ids _ c] k Cons.prems(4) by simp
  with s b show ?case by simp
qed

lemma cfgSets_clearCFG:
  "cfgSets (map insns bbs) 0 0 (clearCFG [0..<length bbs] None bbs)"
  unfolding cfgSets_def
  by (simp add: insns_clearCFG successors_clearCFG predecessors_clearCFG)

lemma positionSuccessors_not_branch:
  assumes "iss ! i \<noteq> []" and "\<not> isBranchInstruction (last (iss ! i))"
  shows "positionSuccessors iss i = (if i + 1 < length iss then {i + 1} else {})"
  using assms
  by (cases "last (iss ! i)") (simp_all add: positionSuccessors_def positionTarget_def fallsThrough_def)

lemma positionSuccessors_unpredicated:
  assumes "iss ! i \<noteq> []" and "last (iss ! i) = BranchInstruction OP_BRA p label False hasLabel"
  shows "positionSuccessors iss i = {unat label}"
  using assms by (simp add: positionSuccessors_def positionTarget_def fallsThrough_def)

lemma positionSuccessors_predicated:
  assumes "iss ! i \<noteq> []" and "last (iss ! i) = BranchInstruction OP_BRA p label True hasLabel"
  shows "positionSuccessors iss i = {unat label} \<union> (if i + 1 < length iss then {i + 1} else {})"
  using assms by (simp add: positionSuccessors_def positionTarget_def fallsThrough_def)

text \<open>
  After \<open>computeCFG\<close> the successor set of every block is \<open>positionSuccessors\<close>, a
  function of the instruction lists only, whatever the sets held before; the predecessor
  sets are the exact converse, and the instructions are unchanged. \<open>computeCFG\<close>
  returns whenever every final \<open>OP_BRA\<close> has a label that is the position of a block.
\<close>

lemma computeCFG_positions:
  "(computeCFG fn = Some fn' \<longrightarrow>
      length (blocks fn') = length (blocks fn)
    \<and> (\<forall>i < length (blocks fn).
          insns (blocks fn' ! i) = insns (blocks fn ! i)
        \<and> successors (blocks fn' ! i) = positionSuccessors (map insns (blocks fn)) i
        \<and> predecessors (blocks fn' ! i)
            = {j. j < length (blocks fn) \<and> i \<in> successors (blocks fn' ! j)}))
   \<and> (targetsInRange fn \<longrightarrow> computeCFG fn \<noteq> None)"
proof (intro conjI impI)
  let ?iss = "map insns (blocks fn)"
  let ?ids = "[0..<length (blocks fn)]"
  have p0: "pending ?iss 0 = None" by (simp add: pending_def)
  have ids: "?ids = [0..<length ?iss]" by simp
  note c0 = cfgSets_clearCFG [of "blocks fn"]
  {
    assume "computeCFG fn = Some fn'"
    then obtain bbs where u: "updateCFG ?ids None (clearCFG ?ids None (blocks fn)) = Some bbs"
      and fn': "fn' = fn\<lparr>blocks := bbs\<rparr>"
      by (auto simp: computeCFG_def Let_def split: option.splits)
    from updateCFG_Some [OF ids _ c0] u p0
    have c: "cfgSets ?iss (length ?iss) (length ?iss) bbs" by simp
    show "length (blocks fn') = length (blocks fn)"
      using c fn' by (simp add: cfgSets_def)
    show "\<forall>i < length (blocks fn).
          insns (blocks fn' ! i) = insns (blocks fn ! i)
        \<and> successors (blocks fn' ! i) = positionSuccessors (map insns (blocks fn)) i
        \<and> predecessors (blocks fn' ! i)
            = {j. j < length (blocks fn) \<and> i \<in> successors (blocks fn' ! j)}"
      using c fn' by (simp add: cfgSets_def positionSuccessors_def)
  }
  {
    assume "targetsInRange fn"
    then have "\<forall>i \<in> {0..<length ?iss}. blockOK (length ?iss) (?iss ! i)"
      by (simp add: targetsInRange_def list_all_length)
    from updateCFG_not_None [OF ids _ c0 this] p0
    show "computeCFG fn \<noteq> None"
      by (auto simp: computeCFG_def Let_def split: option.splits)
  }
qed

text \<open>
  An example: three blocks \<open>[label 0; bra<%0> 2]\<close>, \<open>[label 1; sync]\<close> and
  \<open>[label 2; ret]\<close>, with stale sets and links left from an earlier graph.
\<close>

definition cfgExample :: Function where
  "cfgExample =
     \<lparr>labels = [Some 0, Some 1, Some 2], immediates = [],
      blocks =
        [\<lparr>insns = [LABEL 0, BRA_pred 2 0], predecessors = {2}, successors = {0},
          nextBlock = None, prevBlock = None\<rparr>,
         \<lparr>insns = [LABEL 1, SyncInstruction 1], predecessors = {}, successors = {0, 1, 2},
          nextBlock = None, prevBlock = None\<rparr>,
         \<lparr>insns = [LABEL 2, RET], predecessors = {1}, successors = {1},
          nextBlock = None, prevBlock = None\<rparr>],
      regfile = \<lparr>regs = [FAMILY_BOOL], regTuples = []\<rparr>,
      profile = PROFILE_OCL\<rparr>"

subsection \<open>What \<open>sortLabels\<close> establishes\<close>

text \<open>
  The instructions of a function in instruction order, and the label indices that the
  label instructions of an instruction list carry, in order.
\<close>

definition allInsns :: "BasicBlock list \<Rightarrow> Instruction list" where
  "allInsns bbs = concat (map insns bbs)"

fun labelIndices :: "Instruction list \<Rightarrow> LabelIndex list" where
  "labelIndices [] = []"
| "labelIndices (LabelInstruction index # rest) = index # labelIndices rest"
| "labelIndices (insn # rest) = labelIndices rest"

text \<open>
  The new indices handed out from the counter value \<open>lastLabel\<close> on, and the
  old-to-new map of the claim: an old label index is mapped to the new index of the first
  label instruction that carried it.
\<close>

definition newIndices :: "32 word \<Rightarrow> nat \<Rightarrow> LabelIndex list" where
  "newIndices lastLabel n = map (\<lambda>k. ucast (lastLabel + of_nat k)) [0..<n]"

definition oldToNew :: "LabelIndex list \<Rightarrow> LabelMap" where
  "oldToNew olds = map_of (zip olds (newIndices 0 (length olds)))"

text \<open>
  \<open>rewritten labelMap old new\<close>: the instruction \<open>new\<close> is what the claim says
  stands at the place of \<open>old\<close> afterwards. A label is again a label, a branch
  \<open>OP_BRA\<close> is the same branch (with the same predicate) to the image of its target under
  the map, every other instruction is unchanged.
\<close>

fun isLabelInstruction :: "Instruction \<Rightarrow> bool" where
  "isLabelInstruction (LabelInstruction index) = True"
| "isLabelInstruction insn = False"

fun rewritten :: "LabelMap \<Rightarrow> Instruction \<Rightarrow> Instruction \<Rightarrow> bool" where
  "rewritten labelMap (LabelInstruction index) new = isLabelInstruction new"
| "rewritten labelMap (BranchInstruction opc p index hasPredicate hasLabel) new =
     (if opc = OP_BRA then
        (case labelMap index of
           None \<Rightarrow> False
         | Some newIndex \<Rightarrow> new = (if hasPredicate then BRA_pred newIndex p else BRA newIndex))
      else new = BranchInstruction opc p index hasPredicate hasLabel)"
| "rewritten labelMap old new = (new = old)"

text \<open>The label index of the first instruction of a block, if that is a label.\<close>

definition firstLabel :: "BasicBlock \<Rightarrow> LabelIndex option" where
  "firstLabel bb = (case insns bb of LabelInstruction index # rest \<Rightarrow> Some index | _ \<Rightarrow> None)"

text \<open>The effect of the first pass alone on one instruction.\<close>

fun relabelled :: "Instruction \<Rightarrow> Instruction \<Rightarrow> bool" where
  "relabelled (LabelInstruction index) new = isLabelInstruction new"
| "relabelled old new = (new = old)"

lemma labelIndices_append [simp]:
  "labelIndices (xs @ ys) = labelIndices xs @ labelIndices ys"
  by (induction xs rule: labelIndices.induct) auto

lemma newIndices_Suc:
  "newIndices lastLabel (Suc n) = ucast lastLabel # newIndices (lastLabel + 1) n"
proof -
  have "[0..<Suc n] = 0 # map Suc [0..<n]"
    by (simp add: upt_conv_Cons map_Suc_upt del: upt_Suc)
  then show ?thesis
    by (simp add: newIndices_def comp_def add.assoc del: upt_Suc)
qed

lemma newIndices_add:
  "newIndices lastLabel (a + b) = newIndices lastLabel a @ newIndices (lastLabel + of_nat a) b"
proof (induction a arbitrary: lastLabel)
  case 0
  then show ?case by (simp add: newIndices_def)
next
  case (Suc a)
  have "newIndices lastLabel (Suc a + b) = ucast lastLabel # newIndices (lastLabel + 1) (a + b)"
    using newIndices_Suc [of lastLabel "a + b"] by simp
  also have "\<dots> = ucast lastLabel # newIndices (lastLabel + 1) a @ newIndices (lastLabel + 1 + of_nat a) b"
    by (simp add: Suc.IH)
  finally show ?case
    by (simp add: newIndices_Suc ac_simps)
qed

lemma length_newIndices [simp]: "length (newIndices lastLabel n) = n"
  by (simp add: newIndices_def)

lemma newIndices_0 [simp]: "newIndices lastLabel 0 = []"
  by (simp add: newIndices_def)

lemma relabelInsns_props:
  "relabelInsns is lastLabel labelMap = (is', last', labelMap') \<Longrightarrow>
     last' = lastLabel + of_nat (length (labelIndices is))
   \<and> labelIndices is' = newIndices lastLabel (length (labelIndices is))
   \<and> list_all2 relabelled is is'
   \<and> labelMap' = map_of (zip (labelIndices is) (newIndices lastLabel (length (labelIndices is)))) ++ labelMap"
proof (induction "is" lastLabel labelMap arbitrary: is' last' labelMap' rule: relabelInsns.induct)
  case (1 lastLabel labelMap)
  then show ?case by simp
next
  case (2 index rest lastLabel labelMap)
  obtain r l m where rec: "relabelInsns rest (lastLabel + 1) (map_insert labelMap index (ucast lastLabel)) = (r, l, m)"
    by (metis prod_cases3)
  note ih = "2.IH" [OF refl rec]
  from "2.prems" rec have eq: "is' = LABEL (ucast lastLabel) # r" "last' = l" "labelMap' = m"
    by (auto simp: Let_def)
  have m: "map_of (zip (labelIndices rest) (newIndices (lastLabel + 1) (length (labelIndices rest))))
             ++ map_insert labelMap index (ucast lastLabel)
         = (map_of (zip (labelIndices rest) (newIndices (lastLabel + 1) (length (labelIndices rest)))))
             (index \<mapsto> ucast lastLabel) ++ labelMap"
    by (rule ext) (auto simp: map_insert_def map_add_def split: option.splits)
  have z: "map_of (zip (labelIndices (LabelInstruction index # rest))
                 (newIndices lastLabel (length (labelIndices (LabelInstruction index # rest)))))
         = (map_of (zip (labelIndices rest) (newIndices (lastLabel + 1) (length (labelIndices rest)))))
             (index \<mapsto> ucast lastLabel)"
    by (simp add: newIndices_Suc)
  have "labelMap' = map_of (zip (labelIndices (LabelInstruction index # rest))
                 (newIndices lastLabel (length (labelIndices (LabelInstruction index # rest))))) ++ labelMap"
    unfolding z using ih eq m by simp
  moreover have "last' = lastLabel + of_nat (length (labelIndices (LabelInstruction index # rest)))"
    using ih eq by (simp add: add.assoc)
  moreover have "labelIndices is' = newIndices lastLabel (length (labelIndices (LabelInstruction index # rest)))"
    using ih eq by (simp add: newIndices_Suc LABEL_def)
  moreover have "list_all2 relabelled (LabelInstruction index # rest) is'"
    using ih eq by (simp add: LABEL_def)
  ultimately show ?case by blast
qed (auto simp: Let_def split: prod.splits)


lemma allInsns_Cons [simp]: "allInsns (bb # bbs) = insns bb @ allInsns bbs"
  by (simp add: allInsns_def)

lemma allInsns_Nil [simp]: "allInsns [] = []"
  by (simp add: allInsns_def)

text \<open>
  Two block lists have the same shape, and their instructions are related by \<open>R\<close>
  place by place.
\<close>

definition blocksRel :: "(Instruction \<Rightarrow> Instruction \<Rightarrow> bool) \<Rightarrow> BasicBlock list \<Rightarrow> BasicBlock list \<Rightarrow> bool" where
  "blocksRel R bbs bbs' = list_all2 (\<lambda>bb bb'. list_all2 R (insns bb) (insns bb')) bbs bbs'"

lemma relabelBlocks_props:
  "relabelBlocks bbs lastLabel labelMap = (bbs', last', labelMap') \<Longrightarrow>
     last' = lastLabel + of_nat (length (labelIndices (allInsns bbs)))
   \<and> labelIndices (allInsns bbs') = newIndices lastLabel (length (labelIndices (allInsns bbs)))
   \<and> blocksRel relabelled bbs bbs'
   \<and> labelMap' = map_of (zip (labelIndices (allInsns bbs))
                     (newIndices lastLabel (length (labelIndices (allInsns bbs))))) ++ labelMap"
proof (induction bbs arbitrary: lastLabel labelMap bbs' last' labelMap')
  case Nil
  then show ?case by (simp add: blocksRel_def)
next
  case (Cons bb bbs)
  obtain is1 last1 m1 where r1: "relabelInsns (insns bb) lastLabel labelMap = (is1, last1, m1)"
    by (metis prod_cases3)
  obtain bbs2 last2 m2 where r2: "relabelBlocks bbs last1 m1 = (bbs2, last2, m2)"
    by (metis prod_cases3)
  from Cons.prems r1 r2 have eq: "bbs' = bb\<lparr>insns := is1\<rparr> # bbs2" "last' = last2" "labelMap' = m2"
    by (auto simp: Let_def)
  note p1 = relabelInsns_props [OF r1]
  note p2 = Cons.IH [OF r2]
  let ?a = "length (labelIndices (insns bb))"
  let ?b = "length (labelIndices (allInsns bbs))"
  have l1: "last1 = lastLabel + of_nat ?a" using p1 by simp
  have "last' = lastLabel + of_nat (?a + ?b)"
    using p2 l1 eq by (simp add: add.assoc)
  moreover have ni: "labelIndices (allInsns bbs') = newIndices lastLabel (?a + ?b)"
    using p1 p2 eq l1 by (simp add: newIndices_add)
  moreover have "blocksRel relabelled (bb # bbs) bbs'"
    using p1 p2 eq by (simp add: blocksRel_def)
  moreover have "labelMap' = map_of (zip (labelIndices (insns bb) @ labelIndices (allInsns bbs))
                     (newIndices lastLabel (?a + ?b))) ++ labelMap"
  proof -
    have "map_of (zip (labelIndices (insns bb) @ labelIndices (allInsns bbs)) (newIndices lastLabel (?a + ?b)))
        = map_of (zip (labelIndices (allInsns bbs)) (newIndices last1 ?b))
            ++ map_of (zip (labelIndices (insns bb)) (newIndices lastLabel ?a))"
      by (simp add: newIndices_add l1 zip_append map_of_append)
    then show ?thesis using p1 p2 eq by simp
  qed
  ultimately show ?case by simp
qed

lemma patchInsns_props:
  "patchInsns labelMap is = Some is' \<Longrightarrow> list_all2 (\<lambda>a b. patchInsn labelMap a = Some b) is is'"
  by (induction "is" arbitrary: is') (auto split: option.splits)

lemma patchBlocks_props:
  "patchBlocks labelMap bbs = Some bbs' \<Longrightarrow>
   blocksRel (\<lambda>a b. patchInsn labelMap a = Some b) bbs bbs'"
  by (induction bbs arbitrary: bbs')
     (auto simp: blocksRel_def patchInsns_props split: option.splits)

lemma patchInsn_label:
  "patchInsn labelMap a = Some b \<Longrightarrow> labelIndices (b # rest) = labelIndices (a # rest)"
  by (cases a) (auto simp: BRA_def BRA_pred_def split: if_splits option.splits)

lemma patched_labelIndices:
  "list_all2 (\<lambda>a b. patchInsn labelMap a = Some b) is is' \<Longrightarrow> labelIndices is' = labelIndices is"
proof (induction rule: list_all2_induct)
  case Nil
  then show ?case by simp
next
  case (Cons a xs b ys)
  have "labelIndices (b # ys) = labelIndices [b] @ labelIndices ys"
    using labelIndices_append [of "[b]" ys] by simp
  also have "\<dots> = labelIndices [a] @ labelIndices xs"
    using patchInsn_label [OF Cons.hyps(1), of "[]"] Cons.IH by simp
  also have "\<dots> = labelIndices (a # xs)"
    using labelIndices_append [of "[a]" xs] by simp
  finally show ?case .
qed

lemma patched_allInsns:
  "blocksRel (\<lambda>a b. patchInsn labelMap a = Some b) bbs bbs' \<Longrightarrow>
   labelIndices (allInsns bbs') = labelIndices (allInsns bbs)"
  unfolding blocksRel_def
  by (induction rule: list_all2_induct) (auto simp: patched_labelIndices)

lemma rewritten_compose:
  "relabelled a b \<Longrightarrow> patchInsn labelMap b = Some c \<Longrightarrow> rewritten labelMap a c"
  by (cases a; cases b) (auto split: if_splits option.splits)

lemma blocksRel_compose:
  assumes "blocksRel P xs ys" "blocksRel Q ys zs" "\<And>a b c. P a b \<Longrightarrow> Q b c \<Longrightarrow> R a c"
  shows "blocksRel R xs zs"
proof -
  have inner: "list_all2 R as cs" if "list_all2 P as bs" "list_all2 Q bs cs" for as bs cs
    using list_all2_trans [of P Q R as bs cs] assms(3) that by blast
  show ?thesis
    using assms(1,2) unfolding blocksRel_def
    by (rule list_all2_trans [rotated]) (rule inner)
qed


text \<open>
  The functions on which \<open>sortLabels\<close> neither asserts nor reads or writes out of
  range: every block starts with a label, every \<open>OP_BRA\<close> has a target that some label
  instruction carries, and there are at most \<open>2\<^sup>1\<^sup>6\<close> label instructions (a label
  index has 16 bits; \<open>Function::newLabel\<close> refuses more labels).
\<close>

definition branchOK :: "LabelIndex list \<Rightarrow> Instruction \<Rightarrow> bool" where
  "branchOK olds insn =
     (case insn of
        BranchInstruction opc p index hasPredicate hasLabel \<Rightarrow>
          if opc = OP_BRA then hasLabel \<and> index \<in> set olds else True
      | _ \<Rightarrow> True)"

definition sortable :: "Function \<Rightarrow> bool" where
  "sortable fn =
     (let olds = labelIndices (allInsns (blocks fn))
      in list_all (\<lambda>bb. firstLabel bb \<noteq> None) (blocks fn)
         \<and> list_all (branchOK olds) (allInsns (blocks fn))
         \<and> length olds \<le> 65536)"

lemma unat_newIndices:
  assumes "n \<le> 65536"
  shows "map unat (newIndices 0 n) = [0..<n]"
proof -
  have "unat (ucast (of_nat k :: 32 word) :: 16 word) = k" if "k < n" for k
  proof -
    from that assms have k: "k < 65536" by simp
    then have "unat (of_nat k :: 32 word) = k" by (simp add: unat_of_nat)
    then show ?thesis using k by (simp add: unsigned_ucast_eq take_bit_eq_mod)
  qed
  then have "map (\<lambda>k. unat (ucast (0 + of_nat k :: 32 word) :: 16 word)) [0..<n] = map (\<lambda>k. k) [0..<n]"
    by (intro map_cong) auto
  then show ?thesis
    by (simp add: newIndices_def comp_def)
qed

lemma distinct_newIndices:
  assumes "n \<le> 65536"
  shows "distinct (newIndices 0 n)"
proof -
  have "distinct (map unat (newIndices 0 n))"
    using unat_newIndices [OF assms] by simp
  then show ?thesis by (simp add: distinct_map)
qed

lemma length_resize [simp]: "length (resize xs n x) = n"
  by (simp add: resize_def)

lemma resetLabels_Cons:
  "resetLabels bbs (b # ids) labs =
     (case firstLabel (bbs ! b) of
        None \<Rightarrow> None
      | Some index \<Rightarrow>
          if unat index < length labs then resetLabels bbs ids (labs[unat index := Some b])
          else None)"
  by (simp add: firstLabel_def split: list.splits Instruction.splits)

lemma resetLabels_length:
  "resetLabels bbs ids labs = Some labs' \<Longrightarrow> length labs' = length labs"
  by (induction ids arbitrary: labs)
     (auto simp: resetLabels_Cons simp del: resetLabels.simps(2) split: option.splits if_splits)

lemma resetLabels_frame:
  "resetLabels bbs ids labs = Some labs' \<Longrightarrow>
   \<forall>b \<in> set ids. \<forall>l. firstLabel (bbs ! b) = Some l \<longrightarrow> unat l \<noteq> i \<Longrightarrow>
   labs' ! i = labs ! i"
  by (induction ids arbitrary: labs)
     (auto simp: resetLabels_Cons simp del: resetLabels.simps(2) split: option.splits if_splits)

lemma resetLabels_set:
  "resetLabels bbs ids labs = Some labs' \<Longrightarrow> distinct ids \<Longrightarrow>
   inj_on (\<lambda>b. firstLabel (bbs ! b)) (set ids) \<Longrightarrow>
   \<forall>b \<in> set ids. \<exists>l. firstLabel (bbs ! b) = Some l \<and> unat l < length labs \<and> labs' ! unat l = Some b"
proof (induction ids arbitrary: labs)
  case Nil
  then show ?case by simp
next
  case (Cons b ids)
  from Cons.prems(1) obtain l where
    l: "firstLabel (bbs ! b) = Some l" "unat l < length labs"
    and rec: "resetLabels bbs ids (labs[unat l := Some b]) = Some labs'"
    by (auto simp: resetLabels_Cons simp del: resetLabels.simps(2) split: option.splits if_splits)
  have others: "\<forall>b' \<in> set ids. \<forall>l'. firstLabel (bbs ! b') = Some l' \<longrightarrow> unat l' \<noteq> unat l"
  proof (intro ballI allI impI)
    fix b' l' assume b': "b' \<in> set ids" and l': "firstLabel (bbs ! b') = Some l'"
    from Cons.prems(2) b' have "b' \<noteq> b" by auto
    with Cons.prems(3) b' l l' have "l' \<noteq> l"
      by (auto simp: inj_on_def)
    then show "unat l' \<noteq> unat l" by (simp add: word_unat_eq_iff)
  qed
  have "labs' ! unat l = Some b"
    using resetLabels_frame [OF rec others] l by simp
  moreover have "\<forall>b' \<in> set ids. \<exists>l. firstLabel (bbs ! b') = Some l \<and> unat l < length labs \<and> labs' ! unat l = Some b'"
    using Cons.IH [OF rec] Cons.prems(2,3) by (simp add: inj_on_def)
  ultimately show ?case using l by simp
qed

lemma resetLabels_success:
  "\<forall>b \<in> set ids. \<exists>l. firstLabel (bbs ! b) = Some l \<and> unat l < length labs \<Longrightarrow>
   resetLabels bbs ids labs \<noteq> None"
  by (induction ids arbitrary: labs)
     (auto simp: resetLabels_Cons simp del: resetLabels.simps(2) split: option.splits if_splits)

lemma firstLabel_in_labelIndices:
  "firstLabel bb = Some l \<Longrightarrow> \<exists>rest. labelIndices (insns bb) = l # rest"
  by (auto simp: firstLabel_def split: list.splits Instruction.splits)

lemma firstLabels_distinct:
  "\<forall>bb \<in> set bbs. firstLabel bb \<noteq> None \<Longrightarrow> distinct (labelIndices (allInsns bbs)) \<Longrightarrow>
   distinct (map firstLabel bbs) \<and> (\<forall>bb \<in> set bbs. \<forall>l. firstLabel bb = Some l \<longrightarrow> l \<in> set (labelIndices (allInsns bbs)))"
proof (induction bbs)
  case Nil
  then show ?case by simp
next
  case (Cons bb bbs)
  from Cons.prems(1) obtain l where l: "firstLabel bb = Some l" by auto
  from firstLabel_in_labelIndices [OF l] obtain rest where r: "labelIndices (insns bb) = l # rest" by blast
  from Cons.prems(2) r have d: "distinct (labelIndices (allInsns bbs))"
    and nl: "l \<notin> set (labelIndices (allInsns bbs))" by auto
  from Cons.IH [OF _ d] Cons.prems(1) have ih: "distinct (map firstLabel bbs)"
    "\<forall>bb \<in> set bbs. \<forall>l. firstLabel bb = Some l \<longrightarrow> l \<in> set (labelIndices (allInsns bbs))" by auto
  have "Some l \<notin> set (map firstLabel bbs)" using ih(2) nl by auto
  then show ?case using ih l r by auto
qed

lemma relabelled_firstLabel:
  "list_all2 relabelled (insns bb) (insns bb') \<Longrightarrow> firstLabel bb \<noteq> None \<Longrightarrow> firstLabel bb' \<noteq> None"
  by (cases "insns bb"; cases "insns bb'")
     (auto simp: firstLabel_def split: Instruction.splits)

lemma patched_firstLabel:
  "list_all2 (\<lambda>a b. patchInsn labelMap a = Some b) (insns bb) (insns bb') \<Longrightarrow>
   firstLabel bb \<noteq> None \<Longrightarrow> firstLabel bb' \<noteq> None"
  by (cases "insns bb"; cases "insns bb'")
     (auto simp: firstLabel_def split: Instruction.splits)

lemma blocksRel_length: "blocksRel R bbs bbs' \<Longrightarrow> length bbs' = length bbs"
  by (simp add: blocksRel_def list_all2_lengthD)

lemma blocksRel_nth:
  "blocksRel R bbs bbs' \<Longrightarrow> b < length bbs \<Longrightarrow> list_all2 R (insns (bbs ! b)) (insns (bbs' ! b))"
  unfolding blocksRel_def by (drule list_all2_nthD) auto


lemma resetLabels_firstLabel:
  "resetLabels bbs ids labs = Some labs' \<Longrightarrow> \<forall>b \<in> set ids. firstLabel (bbs ! b) \<noteq> None"
  by (induction ids arbitrary: labs)
     (auto simp: resetLabels_Cons simp del: resetLabels.simps(2) split: option.splits if_splits)

lemma patchInsns_success:
  "list_all (\<lambda>i. patchInsn labelMap i \<noteq> None) is \<Longrightarrow> patchInsns labelMap is \<noteq> None"
  by (induction "is") (auto split: option.splits)

lemma patchBlocks_success:
  "list_all (\<lambda>bb. list_all (\<lambda>i. patchInsn labelMap i \<noteq> None) (insns bb)) bbs \<Longrightarrow>
   patchBlocks labelMap bbs \<noteq> None"
  by (induction bbs) (auto simp: patchInsns_success split: option.splits)

lemma relabelled_patchable:
  "relabelled a b \<Longrightarrow> branchOK olds a \<Longrightarrow> set olds \<subseteq> dom labelMap \<Longrightarrow>
   patchInsn labelMap b \<noteq> None"
  by (cases a; cases b) (auto simp: branchOK_def split: if_splits)

lemma relabelled_list_patchable:
  "list_all2 relabelled is is1 \<Longrightarrow> list_all (branchOK olds) is \<Longrightarrow> set olds \<subseteq> dom labelMap \<Longrightarrow>
   list_all (\<lambda>i. patchInsn labelMap i \<noteq> None) is1"
proof (induction rule: list_all2_induct)
  case Nil
  then show ?case by simp
next
  case (Cons a xs b ys)
  from Cons.prems have "branchOK olds a" "list_all (branchOK olds) xs" by simp_all
  with Cons.IH Cons.prems(2) relabelled_patchable [OF Cons.hyps(1) _ Cons.prems(2)]
  show ?case by simp
qed

lemma relabelled_blocks_patchable:
  "blocksRel relabelled bbs bbs1 \<Longrightarrow> list_all (branchOK olds) (allInsns bbs) \<Longrightarrow>
   set olds \<subseteq> dom labelMap \<Longrightarrow>
   list_all (\<lambda>bb. list_all (\<lambda>i. patchInsn labelMap i \<noteq> None) (insns bb)) bbs1"
  unfolding blocksRel_def
proof (induction rule: list_all2_induct)
  case Nil
  then show ?case by simp
next
  case (Cons bb bbs bb' bbs')
  from Cons.prems have "list_all (branchOK olds) (insns bb)" "list_all (branchOK olds) (allInsns bbs)"
    by simp_all
  with Cons.IH Cons.prems(2) relabelled_list_patchable [OF Cons.hyps(1) _ Cons.prems(2)]
  show ?case by simp
qed

lemma dom_oldToNew: "dom (oldToNew olds) = set olds"
  by (simp add: oldToNew_def)

lemma unat_of_nat_small: "n \<le> 65536 \<Longrightarrow> unat (of_nat n :: 32 word) = n"
  by (simp add: unat_of_nat)

text \<open>
  What \<open>sortLabels\<close> establishes on a function with at most \<open>2\<^sup>1\<^sup>6\<close> label
  instructions, and that it returns on every sortable function.
\<close>

lemma sortLabels_props:
  "(sortLabels fn = Some fn' \<and> length (labelIndices (allInsns (blocks fn))) \<le> 65536 \<longrightarrow>
       map unat (labelIndices (allInsns (blocks fn')))
         = [0..<length (labelIndices (allInsns (blocks fn)))]
     \<and> length (labels fn') = length (labelIndices (allInsns (blocks fn)))
     \<and> (\<forall>b < length (blocks fn').
           \<exists>l. firstLabel (blocks fn' ! b) = Some l \<and> labels fn' ! unat l = Some b)
     \<and> blocksRel (rewritten (oldToNew (labelIndices (allInsns (blocks fn))))) (blocks fn) (blocks fn'))
   \<and> (sortable fn \<longrightarrow> sortLabels fn \<noteq> None)"
proof -
  let ?olds = "labelIndices (allInsns (blocks fn))"
  let ?n = "length ?olds"
  obtain bbs1 lastLabel m where r1: "relabelBlocks (blocks fn) 0 Map.empty = (bbs1, lastLabel, m)"
    by (metis prod_cases3)
  note p1 = relabelBlocks_props [OF r1]
  have last: "lastLabel = of_nat ?n" using p1 by simp
  have m: "m = oldToNew ?olds" using p1 by (simp add: oldToNew_def)
  have rel1: "blocksRel relabelled (blocks fn) bbs1" using p1 by simp
  have li1: "labelIndices (allInsns bbs1) = newIndices 0 ?n" using p1 by simp
  have first: ?thesis if small: "?n \<le> 65536" and s: "sortLabels fn = Some fn'"
  proof -
    from s r1 obtain bbs2 labs where
      r2: "patchBlocks m bbs1 = Some bbs2"
      and r3: "resetLabels bbs2 [0..<length bbs2] (resize (labels fn) (unat lastLabel) None) = Some labs"
      and fn': "fn' = fn\<lparr>labels := labs, blocks := bbs2\<rparr>"
      by (auto simp: sortLabels_def split: option.splits)
    note rel2 = patchBlocks_props [OF r2]
    have li2: "labelIndices (allInsns bbs2) = newIndices 0 ?n"
      using patched_allInsns [OF rel2] li1 by simp
    have a: "map unat (labelIndices (allInsns (blocks fn'))) = [0..<?n]"
      using li2 fn' unat_newIndices [OF small] by simp
    have b: "length (labels fn') = ?n"
      using resetLabels_length [OF r3] fn' last unat_of_nat_small [OF small] by simp
    have fl: "\<forall>bb \<in> set bbs2. firstLabel bb \<noteq> None"
      using resetLabels_firstLabel [OF r3] by (auto simp: in_set_conv_nth)
    have "distinct (map firstLabel bbs2)"
      using firstLabels_distinct [OF fl] li2 distinct_newIndices [OF small] by simp
    then have "inj_on (nth (map firstLabel bbs2)) {..<length bbs2}"
      by (intro inj_on_nth) auto
    then have inj: "inj_on (\<lambda>b. firstLabel (bbs2 ! b)) (set [0..<length bbs2])"
      by (auto simp: inj_on_def)
    have c: "\<forall>b < length (blocks fn'). \<exists>l. firstLabel (blocks fn' ! b) = Some l \<and> labels fn' ! unat l = Some b"
      using resetLabels_set [OF r3 _ inj] fn' by auto
    have d: "blocksRel (rewritten (oldToNew ?olds)) (blocks fn) (blocks fn')"
      using blocksRel_compose [OF rel1 rel2, of "rewritten m"] rewritten_compose m fn' by auto
    from a b c d s show ?thesis by simp
  qed
  have second: "sortLabels fn \<noteq> None" if "sortable fn"
  proof -
    from that have fl0: "list_all (\<lambda>bb. firstLabel bb \<noteq> None) (blocks fn)"
      and bo: "list_all (branchOK ?olds) (allInsns (blocks fn))"
      and small: "?n \<le> 65536"
      by (simp_all add: sortable_def Let_def)
    have "patchBlocks m bbs1 \<noteq> None"
      using patchBlocks_success relabelled_blocks_patchable [OF rel1 bo, of m] m dom_oldToNew
      by auto
    then obtain bbs2 where r2: "patchBlocks m bbs1 = Some bbs2" by auto
    note rel2 = patchBlocks_props [OF r2]
    have li2: "labelIndices (allInsns bbs2) = newIndices 0 ?n"
      using patched_allInsns [OF rel2] li1 by simp
    have len: "length bbs1 = length (blocks fn)" "length bbs2 = length (blocks fn)"
      using blocksRel_length [OF rel1] blocksRel_length [OF rel2] by simp_all
    have fl2: "firstLabel (bbs2 ! b) \<noteq> None" if "b < length bbs2" for b
    proof -
      from that len have b: "b < length (blocks fn)" "b < length bbs1" by simp_all
      have "firstLabel (blocks fn ! b) \<noteq> None"
        using fl0 b by (simp add: list_all_length)
      then have "firstLabel (bbs1 ! b) \<noteq> None"
        using relabelled_firstLabel [OF blocksRel_nth [OF rel1 b(1)]] by simp
      then show ?thesis
        using patched_firstLabel [OF blocksRel_nth [OF rel2 b(2)]] by simp
    qed
    then have fl: "\<forall>bb \<in> set bbs2. firstLabel bb \<noteq> None"
      by (auto simp: in_set_conv_nth)
    have mem: "\<forall>bb \<in> set bbs2. \<forall>l. firstLabel bb = Some l \<longrightarrow> l \<in> set (newIndices 0 ?n)"
      using firstLabels_distinct [OF fl] li2 distinct_newIndices [OF small] by simp
    have bound: "unat l < ?n" if "l \<in> set (newIndices 0 ?n)" for l
    proof -
      from that have "unat l \<in> set (map unat (newIndices 0 ?n))" by simp
      then show ?thesis using unat_newIndices [OF small] by simp
    qed
    have "\<forall>b \<in> set [0..<length bbs2]. \<exists>l. firstLabel (bbs2 ! b) = Some l
             \<and> unat l < length (resize (labels fn) (unat lastLabel) None)"
    proof
      fix b assume "b \<in> set [0..<length bbs2]"
      then have b: "b < length bbs2" by simp
      with fl2 obtain l where l: "firstLabel (bbs2 ! b) = Some l" by auto
      with mem b have "l \<in> set (newIndices 0 ?n)" by auto
      then show "\<exists>l. firstLabel (bbs2 ! b) = Some l \<and> unat l < length (resize (labels fn) (unat lastLabel) None)"
        using l bound last unat_of_nat_small [OF small] by simp
    qed
    from resetLabels_success [OF this] r1 r2 show ?thesis
      by (auto simp: sortLabels_def split: option.splits)
  qed
  from first second show ?thesis by blast
qed






text \<open>
  Every label instruction is the first instruction of its block: no instruction of a
  block after the first one is a label. This is how the blocks are built
  (\<open>Context::startBlock\<close>: "A block must be started with a label").
\<close>

definition labelsHeadBlocks :: "Function \<Rightarrow> bool" where
  "labelsHeadBlocks fn = list_all (\<lambda>bb. labelIndices (tl (insns bb)) = []) (blocks fn)"


lemma labelIndices_Cons_Nil:
  "labelIndices (a # xs) = [] \<longleftrightarrow> \<not> isLabelInstruction a \<and> labelIndices xs = []"
  by (cases a) simp_all

lemma rewritten_label_iff:
  "rewritten m a b \<Longrightarrow> isLabelInstruction b = isLabelInstruction a"
  by (cases a; cases b) (auto simp: BRA_def BRA_pred_def split: if_splits option.splits)

lemma rewritten_no_labels:
  "list_all2 (rewritten m) xs ys \<Longrightarrow> labelIndices xs = [] \<Longrightarrow> labelIndices ys = []"
proof (induction rule: list_all2_induct)
  case Nil
  then show ?case by simp
next
  case (Cons a xs b ys)
  from Cons.prems have "\<not> isLabelInstruction a" "labelIndices xs = []"
    by (simp_all add: labelIndices_Cons_Nil)
  with Cons.IH rewritten_label_iff [OF Cons.hyps(1)] show ?case
    by (simp add: labelIndices_Cons_Nil)
qed

lemma list_all2_tl: "list_all2 R xs ys \<Longrightarrow> list_all2 R (tl xs) (tl ys)"
  by (cases xs; cases ys) simp_all

lemma single_label_block:
  "firstLabel bb = Some l \<Longrightarrow> labelIndices (tl (insns bb)) = [] \<Longrightarrow> labelIndices (insns bb) = [l]"
  by (auto simp: firstLabel_def split: list.splits Instruction.splits)

lemma firstLabels_are_labelIndices:
  "\<forall>bb \<in> set bbs. \<exists>l. firstLabel bb = Some l \<and> labelIndices (insns bb) = [l] \<Longrightarrow>
   map firstLabel bbs = map Some (labelIndices (allInsns bbs))"
  by (induction bbs) auto

lemma word16_of_unat: "unat (l :: 16 word) = k \<Longrightarrow> l = of_nat k"
  by auto

text \<open>
  When every label instruction is the first instruction of its block, the sorted function
  has as many blocks as labels, block \<open>k\<close> starts with label \<open>k\<close>, and entry \<open>k\<close> of the
  label table is block \<open>k\<close>.
\<close>

lemma sortLabels_heads:
  assumes s: "sortLabels fn = Some fn'"
    and small: "length (labelIndices (allInsns (blocks fn))) \<le> 65536"
    and heads: "labelsHeadBlocks fn"
  shows "length (blocks fn') = length (labels fn')"
    and "\<forall>k < length (labels fn').
           labels fn' ! k = Some k \<and> firstLabel (blocks fn' ! k) = Some (of_nat k)"
proof -
  let ?n = "length (labelIndices (allInsns (blocks fn)))"
  let ?ls = "labelIndices (allInsns (blocks fn'))"
  from sortLabels_props [of fn fn'] s small have
    a: "map unat ?ls = [0..<?n]"
    and b: "length (labels fn') = ?n"
    and c: "\<And>b. b < length (blocks fn') \<Longrightarrow>
              \<exists>l. firstLabel (blocks fn' ! b) = Some l \<and> labels fn' ! unat l = Some b"
    and d: "blocksRel (rewritten (oldToNew (labelIndices (allInsns (blocks fn))))) (blocks fn) (blocks fn')"
    by blast+
  have len: "length (blocks fn') = length (blocks fn)" using blocksRel_length [OF d] .
  have single: "\<exists>l. firstLabel (blocks fn' ! b) = Some l \<and> labelIndices (insns (blocks fn' ! b)) = [l]"
    if "b < length (blocks fn')" for b
  proof -
    from that len have b0: "b < length (blocks fn)" by simp
    from c [OF that] obtain l where l: "firstLabel (blocks fn' ! b) = Some l" by blast
    from heads b0 have "labelIndices (tl (insns (blocks fn ! b))) = []"
      by (simp add: labelsHeadBlocks_def list_all_length)
    with rewritten_no_labels [OF list_all2_tl [OF blocksRel_nth [OF d b0]]]
    have "labelIndices (tl (insns (blocks fn' ! b))) = []" by simp
    from single_label_block [OF l this] l show ?thesis by blast
  qed
  then have "\<forall>bb \<in> set (blocks fn'). \<exists>l. firstLabel bb = Some l \<and> labelIndices (insns bb) = [l]"
    by (auto simp: in_set_conv_nth)
  from firstLabels_are_labelIndices [OF this]
  have m: "map firstLabel (blocks fn') = map Some ?ls" .
  from a have ln: "length ?ls = ?n" using length_map [of unat ?ls] by simp
  from m have "length (blocks fn') = length ?ls" using map_eq_imp_length_eq by blast
  with ln b show e: "length (blocks fn') = length (labels fn')" by simp
  show "\<forall>k < length (labels fn').
           labels fn' ! k = Some k \<and> firstLabel (blocks fn' ! k) = Some (of_nat k)"
  proof (intro allI impI)
    fix k assume k: "k < length (labels fn')"
    with b ln e have k': "k < length ?ls" "k < ?n" "k < length (blocks fn')" by simp_all
    have "unat (?ls ! k) = [0..<?n] ! k" using a k'(1) by (metis nth_map)
    then have u: "unat (?ls ! k) = k" using k'(2) by simp
    have "firstLabel (blocks fn' ! k) = Some (?ls ! k)"
      using m k'(1,3) by (metis nth_map)
    then have f: "firstLabel (blocks fn' ! k) = Some (of_nat k)"
      using word16_of_unat [OF u] by simp
    from c [OF k'(3)] f u word16_of_unat [OF u] have "labels fn' ! k = Some k" by auto
    with f show "labels fn' ! k = Some k \<and> firstLabel (blocks fn' ! k) = Some (of_nat k)" by simp
  qed
qed







subsection \<open>\<open>computeCFG\<close> and the labels\<close>

text \<open>
  The successors as the claim states them. The target block of a branch is the block
  that carries the label of the branch: a block whose first instruction is the label
  instruction with that index. The successors of a block are the target blocks of a
  final \<open>OP_BRA\<close>, and the textually next block when the block is not empty and its
  last instruction is no branch instruction or is a predicated \<open>OP_BRA\<close>.
\<close>

definition labelledBlocks :: "BasicBlock list \<Rightarrow> LabelIndex \<Rightarrow> nat set" where
  "labelledBlocks bbs label = set (filter (\<lambda>b. firstLabel (bbs ! b) = Some label) [0..<length bbs])"

definition branchTarget :: "BasicBlock list \<Rightarrow> nat \<Rightarrow> nat set" where
  "branchTarget bbs i =
     (if insns (bbs ! i) = [] then {}
      else (case last (insns (bbs ! i)) of
              BranchInstruction opc p label hasPredicate hasLabel \<Rightarrow>
                if opc = OP_BRA then labelledBlocks bbs label else {}
            | _ \<Rightarrow> {}))"

definition cfgSuccessors :: "BasicBlock list \<Rightarrow> nat \<Rightarrow> nat set" where
  "cfgSuccessors bbs i =
     branchTarget bbs i
     \<union> (if fallsThrough (insns (bbs ! i)) \<and> i + 1 < length bbs then {i + 1} else {})"

text \<open>
  The form in which \<open>sortLabels\<close> leaves a function whose label instructions are the
  first instructions of its blocks ("top block has the smallest label"): block \<open>k\<close>
  starts with label \<open>k\<close>. A label index has 16 bits.
\<close>

definition labelsSorted :: "Function \<Rightarrow> bool" where
  "labelsSorted fn =
     (length (blocks fn) \<le> 65536
      \<and> list_all (\<lambda>k. firstLabel (blocks fn ! k) = Some (of_nat k)) [0..<length (blocks fn)])"

text \<open>Every final \<open>OP_BRA\<close> has a label, and some block carries it.\<close>

definition targetOK :: "BasicBlock list \<Rightarrow> nat \<Rightarrow> bool" where
  "targetOK bbs i =
     (if insns (bbs ! i) = [] then True
      else (case last (insns (bbs ! i)) of
              BranchInstruction opc p label hasPredicate hasLabel \<Rightarrow>
                if opc = OP_BRA then hasLabel \<and> labelledBlocks bbs label \<noteq> {} else True
            | _ \<Rightarrow> True))"

definition branchTargetsOK :: "Function \<Rightarrow> bool" where
  "branchTargetsOK fn = list_all (targetOK (blocks fn)) [0..<length (blocks fn)]"

lemma cfgSuccessors_not_branch:
  assumes "insns (bbs ! i) \<noteq> []" and "\<not> isBranchInstruction (last (insns (bbs ! i)))"
  shows "cfgSuccessors bbs i = (if i + 1 < length bbs then {i + 1} else {})"
  using assms
  by (cases "last (insns (bbs ! i))") (simp_all add: cfgSuccessors_def branchTarget_def fallsThrough_def)

lemma cfgSuccessors_unpredicated:
  assumes "insns (bbs ! i) \<noteq> []"
    and "last (insns (bbs ! i)) = BranchInstruction OP_BRA p label False hasLabel"
  shows "cfgSuccessors bbs i = labelledBlocks bbs label"
  using assms by (simp add: cfgSuccessors_def branchTarget_def fallsThrough_def)

lemma cfgSuccessors_predicated:
  assumes "insns (bbs ! i) \<noteq> []"
    and "last (insns (bbs ! i)) = BranchInstruction OP_BRA p label True hasLabel"
  shows "cfgSuccessors bbs i = labelledBlocks bbs label \<union> (if i + 1 < length bbs then {i + 1} else {})"
  using assms by (simp add: cfgSuccessors_def branchTarget_def fallsThrough_def)

text \<open>On sorted labels the block that carries a label is the block at its position.\<close>

lemma labelledBlocks_sorted:
  assumes "labelsSorted fn"
  shows "labelledBlocks (blocks fn) label
           = (if unat label < length (blocks fn) then {unat label} else {})"
proof -
  let ?n = "length (blocks fn)"
  from assms have small: "?n \<le> 65536"
    and first: "\<And>k. k < ?n \<Longrightarrow> firstLabel (blocks fn ! k) = Some (of_nat k)"
    by (simp_all add: labelsSorted_def list_all_length)
  have "(firstLabel (blocks fn ! k) = Some label) = (k = unat label)" if "k < ?n" for k
  proof -
    from that small have "k < 65536" by simp
    then have "unat (of_nat k :: 16 word) = k" by (simp add: unat_of_nat)
    then have "(of_nat k = label) = (k = unat label)" by auto
    with first [OF that] show ?thesis by simp
  qed
  then have "labelledBlocks (blocks fn) label = {k. k < ?n \<and> k = unat label}"
    by (auto simp: labelledBlocks_def)
  then show ?thesis by auto
qed

lemma sorted_targetOK:
  assumes "labelsSorted fn" and "targetOK (blocks fn) i"
  shows "blockOK (length (blocks fn)) (insns (blocks fn ! i))"
  using assms(2) labelledBlocks_sorted [OF assms(1)]
  by (auto simp: targetOK_def blockOK_def split: Instruction.splits if_splits)

lemma sorted_branchTarget:
  assumes "labelsSorted fn" and "blockOK (length (blocks fn)) (insns (blocks fn ! i))"
  shows "branchTarget (blocks fn) i = positionTarget (insns (blocks fn ! i))"
  using assms(2) labelledBlocks_sorted [OF assms(1)]
  by (auto simp: branchTarget_def positionTarget_def blockOK_def split: Instruction.splits if_splits)

lemma computeCFG_in_range:
  assumes "computeCFG fn = Some fn'"
  shows "targetsInRange fn"
proof -
  let ?iss = "map insns (blocks fn)"
  let ?ids = "[0..<length (blocks fn)]"
  have p0: "pending ?iss 0 = None" by (simp add: pending_def)
  have ids: "?ids = [0..<length ?iss]" by simp
  from assms obtain bbs where "updateCFG ?ids None (clearCFG ?ids None (blocks fn)) = Some bbs"
    by (auto simp: computeCFG_def Let_def split: option.splits)
  with updateCFG_Some [OF ids _ cfgSets_clearCFG [of "blocks fn"], of bbs] p0
  have "\<forall>i \<in> {0..<length ?iss}. blockOK (length ?iss) (?iss ! i)" by simp
  then show ?thesis by (simp add: targetsInRange_def list_all_length)
qed

text \<open>What \<open>sortLabels\<close> leaves is sorted.\<close>

lemma sortLabels_labelsSorted:
  assumes "sortLabels fn = Some fn'"
    and "length (labelIndices (allInsns (blocks fn))) \<le> 65536"
    and "labelsHeadBlocks fn"
  shows "labelsSorted fn'"
proof -
  note h = sortLabels_heads [OF assms]
  from sortLabels_props [of fn fn'] assms(1,2)
  have "length (labels fn') = length (labelIndices (allInsns (blocks fn)))" by blast
  with h assms(2) show ?thesis by (simp add: labelsSorted_def list_all_length)
qed

text \<open>
  C9, as amended. After \<open>computeCFG\<close> on a function with sorted labels (block \<open>k\<close>
  starts with label \<open>k\<close>, as \<open>sortLabels\<close> leaves it), whatever the sets held before,
  the successor set of every block is \<open>cfgSuccessors\<close>: for a non-empty block whose
  last instruction is not a branch, the textually next block (if there is one); for a
  block ending in an unpredicated branch, exactly the one block that carries the label of
  the branch; for a block ending in a predicated branch, that block and the textually
  next block. The predecessor sets are the exact converse. The instructions are unchanged.
  \<open>computeCFG\<close> returns on such a function whenever every final \<open>OP_BRA\<close> has a
  label that some block carries.
\<close>

theorem C9_computeCFG:
  "(computeCFG fn = Some fn' \<and> labelsSorted fn \<longrightarrow>
      length (blocks fn') = length (blocks fn)
    \<and> (\<forall>i < length (blocks fn).
          insns (blocks fn' ! i) = insns (blocks fn ! i)
        \<and> successors (blocks fn' ! i) = cfgSuccessors (blocks fn) i
        \<and> predecessors (blocks fn' ! i)
            = {j. j < length (blocks fn) \<and> i \<in> successors (blocks fn' ! j)}
        \<and> (\<forall>p label hasPredicate hasLabel.
              insns (blocks fn ! i) \<noteq> []
              \<and> last (insns (blocks fn ! i)) = BranchInstruction OP_BRA p label hasPredicate hasLabel
              \<longrightarrow> (\<exists>t < length (blocks fn).
                     firstLabel (blocks fn ! t) = Some label \<and> branchTarget (blocks fn) i = {t}))))
   \<and> (labelsSorted fn \<and> branchTargetsOK fn \<longrightarrow> computeCFG fn \<noteq> None)"
proof (intro conjI impI)
  let ?n = "length (blocks fn)"
  {
    assume a: "computeCFG fn = Some fn' \<and> labelsSorted fn"
    then have c: "computeCFG fn = Some fn'" and s: "labelsSorted fn" by simp_all
    from computeCFG_positions [of fn fn'] c have
      len: "length (blocks fn') = ?n"
      and pos: "\<And>i. i < ?n \<Longrightarrow>
          insns (blocks fn' ! i) = insns (blocks fn ! i)
        \<and> successors (blocks fn' ! i) = positionSuccessors (map insns (blocks fn)) i
        \<and> predecessors (blocks fn' ! i) = {j. j < ?n \<and> i \<in> successors (blocks fn' ! j)}"
      by blast+
    have ok: "blockOK ?n (insns (blocks fn ! i))" if "i < ?n" for i
      using computeCFG_in_range [OF c] that by (simp add: targetsInRange_def list_all_length)
    show "length (blocks fn') = ?n" by (rule len)
    show "\<forall>i < ?n.
          insns (blocks fn' ! i) = insns (blocks fn ! i)
        \<and> successors (blocks fn' ! i) = cfgSuccessors (blocks fn) i
        \<and> predecessors (blocks fn' ! i) = {j. j < ?n \<and> i \<in> successors (blocks fn' ! j)}
        \<and> (\<forall>p label hasPredicate hasLabel.
              insns (blocks fn ! i) \<noteq> []
              \<and> last (insns (blocks fn ! i)) = BranchInstruction OP_BRA p label hasPredicate hasLabel
              \<longrightarrow> (\<exists>t < ?n. firstLabel (blocks fn ! t) = Some label \<and> branchTarget (blocks fn) i = {t}))"
    proof (intro allI impI)
      fix i assume i: "i < ?n"
      have e: "cfgSuccessors (blocks fn) i = positionSuccessors (map insns (blocks fn)) i"
        using sorted_branchTarget [OF s ok [OF i]] i
        by (simp add: cfgSuccessors_def positionSuccessors_def)
      have t: "\<exists>t < ?n. firstLabel (blocks fn ! t) = Some label \<and> branchTarget (blocks fn) i = {t}"
        if ne: "insns (blocks fn ! i) \<noteq> []"
          and l: "last (insns (blocks fn ! i)) = BranchInstruction OP_BRA p label hasPredicate hasLabel"
        for p label hasPredicate hasLabel
      proof -
        from ok [OF i] ne l have r: "unat label < ?n" by (simp add: blockOK_def)
        with labelledBlocks_sorted [OF s, of label]
        have lb: "labelledBlocks (blocks fn) label = {unat label}" by simp
        then have "unat label \<in> labelledBlocks (blocks fn) label" by simp
        then have "firstLabel (blocks fn ! unat label) = Some label"
          by (simp add: labelledBlocks_def)
        moreover have "branchTarget (blocks fn) i = {unat label}"
          using ne l lb by (simp add: branchTarget_def)
        ultimately show ?thesis using r by blast
      qed
      from pos [OF i] e t
      show "insns (blocks fn' ! i) = insns (blocks fn ! i)
        \<and> successors (blocks fn' ! i) = cfgSuccessors (blocks fn) i
        \<and> predecessors (blocks fn' ! i) = {j. j < ?n \<and> i \<in> successors (blocks fn' ! j)}
        \<and> (\<forall>p label hasPredicate hasLabel.
              insns (blocks fn ! i) \<noteq> []
              \<and> last (insns (blocks fn ! i)) = BranchInstruction OP_BRA p label hasPredicate hasLabel
              \<longrightarrow> (\<exists>t < ?n. firstLabel (blocks fn ! t) = Some label \<and> branchTarget (blocks fn) i = {t}))"
        by simp
    qed
  }
  {
    assume a: "labelsSorted fn \<and> branchTargetsOK fn"
    then have "targetsInRange fn"
      using sorted_targetOK [of fn]
      by (auto simp: targetsInRange_def branchTargetsOK_def list_all_length)
    with computeCFG_positions [of fn fn'] show "computeCFG fn \<noteq> None" by blast
  }
qed

text \<open>
  An example whose labels are not sorted: \<open>[label 1; bra 1]\<close> and \<open>[label 0; ret]\<close>,
  with the label table \<open>[block 1, block 0]\<close>; and what \<open>computeCFG\<close> makes of it.
\<close>

definition cfgUnsorted :: Function where
  "cfgUnsorted =
     \<lparr>labels = [Some 1, Some 0], immediates = [],
      blocks =
        [\<lparr>insns = [LABEL 1, BRA 1], predecessors = {}, successors = {},
          nextBlock = None, prevBlock = None\<rparr>,
         \<lparr>insns = [LABEL 0, RET], predecessors = {}, successors = {},
          nextBlock = None, prevBlock = None\<rparr>],
      regfile = \<lparr>regs = [FAMILY_BOOL], regTuples = []\<rparr>,
      profile = PROFILE_OCL\<rparr>"

definition cfgUnsortedResult :: Function where
  "cfgUnsortedResult =
     \<lparr>labels = [Some 1, Some 0], immediates = [],
      blocks =
        [\<lparr>insns = [LABEL 1, BRA 1], predecessors = {}, successors = {1},
          nextBlock = Some 1, prevBlock = None\<rparr>,
         \<lparr>insns = [LABEL 0, RET], predecessors = {0}, successors = {},
          nextBlock = None, prevBlock = Some 0\<rparr>],
      regfile = \<lparr>regs = [FAMILY_BOOL], regTuples = []\<rparr>,
      profile = PROFILE_OCL\<rparr>"

text \<open>
  C9, counterexample to the claim as stated (a block ending in an unpredicated branch has
  exactly the branch's target block as successor). Block 0 ends in the unpredicated
  branch to label 1. The block that carries label 1 is block 0 itself, which is also
  entry 1 of the label table; \<open>computeCFG\<close> reads \<open>blocks[1]\<close> and makes block 1 the
  only successor of block 0.
\<close>

theorem C9_unsorted_labels:
  "computeCFG cfgUnsorted = Some cfgUnsortedResult
   \<and> last (insns (blocks cfgUnsorted ! 0)) = BRA 1
   \<and> firstLabel (blocks cfgUnsorted ! 0) = Some 1
   \<and> labels cfgUnsorted ! 1 = Some 0
   \<and> cfgSuccessors (blocks cfgUnsorted) 0 = {0}
   \<and> successors (blocks cfgUnsortedResult ! 0) = {1}"
proof -
  have "computeCFG cfgUnsorted = Some cfgUnsortedResult"
    by (simp add: computeCFG_def cfgUnsorted_def cfgUnsortedResult_def addEdge_def Let_def
          upt_conv_Cons LABEL_def BRA_def RET_def)
  moreover have "cfgSuccessors (blocks cfgUnsorted) 0 = {0}"
    by (simp add: cfgSuccessors_def branchTarget_def labelledBlocks_def fallsThrough_def
          firstLabel_def cfgUnsorted_def upt_conv_Cons LABEL_def BRA_def RET_def)
  moreover have "last (insns (blocks cfgUnsorted ! 0)) = BRA 1"
    "firstLabel (blocks cfgUnsorted ! 0) = Some 1" "labels cfgUnsorted ! 1 = Some 0"
    by (simp_all add: cfgUnsorted_def firstLabel_def LABEL_def)
  moreover have "successors (blocks cfgUnsortedResult ! 0) = {1}"
    by (simp add: cfgUnsortedResult_def)
  ultimately show ?thesis by simp
qed

lemma cfgExample_sorted: "labelsSorted cfgExample"
  by (simp add: labelsSorted_def cfgExample_def firstLabel_def upt_conv_Cons LABEL_def)

lemma cfgExample_targets: "branchTargetsOK cfgExample"
  by (simp add: branchTargetsOK_def targetOK_def labelledBlocks_def firstLabel_def cfgExample_def
        upt_conv_Cons LABEL_def BRA_pred_def RET_def)

lemma cfgExample_cfgSuccessors:
  "cfgSuccessors (blocks cfgExample) 0 = {1, 2}"
  "cfgSuccessors (blocks cfgExample) (Suc 0) = {2}"
  "cfgSuccessors (blocks cfgExample) 2 = {}"
  by (auto simp: cfgSuccessors_def branchTarget_def fallsThrough_def labelledBlocks_def
        firstLabel_def cfgExample_def upt_conv_Cons LABEL_def BRA_pred_def RET_def)

text \<open>
  C9, witness: the example \<open>[label 0; bra<%0> 2]\<close>, \<open>[label 1; sync]\<close>,
  \<open>[label 2; ret]\<close> has sorted labels; \<open>computeCFG\<close> returns on it; block 0 has the
  successors 1 and 2, block 1 the successor 2, block 2 none, and block 2 has the
  predecessors 0 and 1.
\<close>

theorem C9_computeCFG_witness:
  "labelsSorted cfgExample \<and> branchTargetsOK cfgExample
   \<and> (\<exists>fn'. computeCFG cfgExample = Some fn'
         \<and> successors (blocks fn' ! 0) = {1, 2}
         \<and> successors (blocks fn' ! 1) = {2}
         \<and> successors (blocks fn' ! 2) = {}
         \<and> predecessors (blocks fn' ! 2) = {0, 1})"
proof -
  from C9_computeCFG [of cfgExample] cfgExample_sorted cfgExample_targets obtain fn' where
    r: "computeCFG cfgExample = Some fn'" by blast
  have n: "length (blocks cfgExample) = 3" by (simp add: cfgExample_def)
  from C9_computeCFG [of cfgExample fn'] r n cfgExample_sorted have
    s: "\<And>i. i < 3 \<Longrightarrow> successors (blocks fn' ! i) = cfgSuccessors (blocks cfgExample) i"
    and p: "predecessors (blocks fn' ! 2) = {j. j < 3 \<and> 2 \<in> successors (blocks fn' ! j)}"
    by auto
  have s0: "successors (blocks fn' ! 0) = {1, 2}"
    and s1: "successors (blocks fn' ! 1) = {2}"
    and s2: "successors (blocks fn' ! 2) = {}"
    using s [of 0] s [of 1] s [of 2] cfgExample_cfgSuccessors by simp_all
  have "{j. j < (3::nat) \<and> 2 \<in> successors (blocks fn' ! j)} = {0, 1}"
  proof -
    have "j < (3::nat) \<longleftrightarrow> j = 0 \<or> j = 1 \<or> j = 2" for j by arith
    then show ?thesis using s0 s1 s2 by auto
  qed
  with p s0 s1 s2 r cfgExample_sorted cfgExample_targets show ?thesis by simp
qed


section \<open>The instruction scheduler (backend/gen\_insn\_scheduling.cpp)\<close>

subsection \<open>Selection instructions and registers\<close>

text \<open>
  The selection is declared in backend/gen\_register.hpp and
  backend/gen\_insn\_selection.hpp; the list of the opcodes (gen\_insn\_selection.hxx), the
  constants of gen\_defs.hpp and the bodies of \<open>isRead()\<close>, \<open>isWrite()\<close>,
  \<open>isBranch()\<close> and \<open>isLabel()\<close> are not among the sources at hand. Of a
  \<open>GenRegister\<close> the scheduler
  reads the fields \<open>file\<close> (here \<open>reg_file\<close>), \<open>nr\<close>, \<open>subnr\<close>, \<open>physical\<close>
  and the virtual register \<open>value.reg\<close>; of a \<open>SelectionInstruction\<close> the opcode, the
  state, the sources and destinations, the message function \<open>extra.function\<close> and the
  answers of \<open>isRead()\<close>, \<open>isWrite()\<close>, \<open>isBranch()\<close> and \<open>isLabel()\<close>.
\<close>

datatype GenRegisterFile =
    GEN_ARCHITECTURE_REGISTER_FILE | GEN_GENERAL_REGISTER_FILE
  | GEN_MESSAGE_REGISTER_FILE | GEN_IMMEDIATE_VALUE

record GenRegister =
  reg_file :: GenRegisterFile
  nr :: nat
  subnr :: nat
  physical :: bool
  value_reg :: nat

datatype SelectionOpcode =
    SEL_OP_LABEL | SEL_OP_MOV | SEL_OP_RNDZ | SEL_OP_RNDE | SEL_OP_RNDD | SEL_OP_SEL
  | SEL_OP_NOT | SEL_OP_AND | SEL_OP_OR | SEL_OP_XOR | SEL_OP_SHR | SEL_OP_SHL | SEL_OP_RSR
  | SEL_OP_RSL | SEL_OP_ASR | SEL_OP_ADD | SEL_OP_MUL | SEL_OP_FRC | SEL_OP_MAC | SEL_OP_MACH
  | SEL_OP_LZD | SEL_OP_JMPI | SEL_OP_CMP | SEL_OP_EOT | SEL_OP_NOP | SEL_OP_WAIT
  | SEL_OP_BARRIER | SEL_OP_MATH | SEL_OP_UNTYPED_READ | SEL_OP_UNTYPED_WRITE
  | SEL_OP_BYTE_GATHER | SEL_OP_BYTE_SCATTER

record SelectionState =
  predicate :: nat
  physicalFlag :: bool
  flag :: nat
  subFlag :: nat
  flagIndex :: nat
  accWrEnable :: bool

record SelectionInstruction =
  opcode :: SelectionOpcode
  state :: SelectionState
  src :: "GenRegister list"
  dst :: "GenRegister list"
  extra_function :: nat
  isRead :: bool
  isWrite :: bool
  isBranch :: bool
  isLabel :: bool

datatype SchedulePolicy = PRE_ALLOC | POST_ALLOC

text \<open>
  What the scheduler takes from its context and from other files: the SIMD width
  \<open>ctx.getSimdWidth()\<close>, the register allocation \<open>ctx.ra->genReg\<close>, the number of
  virtual registers \<open>selection.getRegNum()\<close>, the constants of gen\_defs.hpp, the
  register constructors \<open>GenRegister::flag\<close>, \<open>GenRegister::acc\<close> and
  \<open>GenRegister::uw1grf\<close> (gen\_register.hpp), and the latency and throughput tables
  (gen\_insn\_gen7\_schedule\_info.hxx, not among the sources at hand), the throughput for
  SIMD8 or SIMD16. All are parameters.
\<close>

record GenContext =
  ctxSimdWidth :: nat
  ra_genReg :: "GenRegister \<Rightarrow> GenRegister"
  sel_regNum :: nat
  GEN_ARF_NULL :: nat
  GEN_ARF_FLAG :: nat
  GEN_ARF_ACCUMULATOR :: nat
  GEN_PREDICATE_NONE :: nat
  flagReg :: "nat \<Rightarrow> nat \<Rightarrow> GenRegister"
  accReg :: GenRegister
  uw1grf :: "nat \<Rightarrow> GenRegister"
  getLatencyGen7 :: "SelectionOpcode \<Rightarrow> 32 word"
  getThroughputGen7 :: "SelectionOpcode \<Rightarrow> bool \<Rightarrow> 32 word"

subsection \<open>The dependency tracker\<close>

text \<open>
  A node of the DAG wraps one instruction. A pointer to a node is the position of its
  instruction in the block, which is also its position in the node table \<open>insnNodes\<close>
  (here \<open>dag\<close>). \<open>children\<close> lists the nodes that depend on the node, in the order
  of \<open>push_back\<close>; \<open>refNum\<close> and \<open>retiredCycle\<close> are \<open>uint32_t\<close>.
\<close>

record ScheduleDAGNode =
  insn :: SelectionInstruction
  children :: "nat list"
  refNum :: "32 word"
  retiredCycle :: "32 word"

definition newScheduleDAGNode :: "SelectionInstruction \<Rightarrow> ScheduleDAGNode" where
  "newScheduleDAGNode i = \<lparr>insn = i, children = [], refNum = 0, retiredCycle = 0\<rparr>"

definition MAX_FLAG_REGISTER :: nat where "MAX_FLAG_REGISTER = 8"
definition MAX_ACC_REGISTER :: nat where "MAX_ACC_REGISTER = 1"
definition GLOBAL_MEMORY :: nat where "GLOBAL_MEMORY = 0"
definition LOCAL_MEMORY :: nat where "LOCAL_MEMORY = 1"
definition MAX_MEM_SYSTEM :: nat where "MAX_MEM_SYSTEM = 2"

text \<open>
  The tracker: \<open>nodes\<close> stores for every resource index the last node that wrote it
  (NULL is \<open>None\<close>), \<open>grfNum\<close> the number of register slots.
\<close>

record DependencyTracker =
  nodes :: "nat option list"
  dag :: "ScheduleDAGNode list"
  grfNum :: nat

text \<open>
  The constructor. \<open>None\<close>: \<open>GBE_ASSERT(simdWidth == 8 || simdWidth == 16)\<close> fails.
\<close>

definition newDependencyTracker :: "GenContext \<Rightarrow> SchedulePolicy \<Rightarrow> DependencyTracker option" where
  "newDependencyTracker ctx policy =
     (if policy = PRE_ALLOC then
        (let n = sel_regNum ctx
         in Some \<lparr>nodes = replicate (n + MAX_FLAG_REGISTER + MAX_ACC_REGISTER + MAX_MEM_SYSTEM) None,
                  dag = [], grfNum = n\<rparr>)
      else
        (let simdWidth = ctxSimdWidth ctx
         in if \<not> (simdWidth = 8 \<or> simdWidth = 16) then None
            else (let n = (if simdWidth = 8 then 128 else 64)
                  in Some \<lparr>nodes = replicate (n + MAX_FLAG_REGISTER + MAX_ACC_REGISTER + MAX_MEM_SYSTEM) None,
                           dag = [], grfNum = n\<rparr>)))"

definition clear :: "DependencyTracker \<Rightarrow> DependencyTracker" where
  "clear tr = tr\<lparr>nodes := map (\<lambda>x. None) (nodes tr)\<rparr>"

definition ignoreDependency :: "GenContext \<Rightarrow> GenRegister \<Rightarrow> bool" where
  "ignoreDependency ctx reg =
     (if reg_file reg = GEN_IMMEDIATE_VALUE then True
      else if reg_file reg = GEN_ARCHITECTURE_REGISTER_FILE \<and> (nr reg AND 0xf0) = GEN_ARF_NULL ctx
        then True
      else False)"

text \<open>
  \<open>getIndex(GenRegister)\<close>. \<open>None\<close> where an assertion fails or \<open>NOT_SUPPORTED\<close> is
  reached. \<open>sizeof(uint16_t)\<close> is 2.
\<close>

definition getIndex :: "GenContext \<Rightarrow> SchedulePolicy \<Rightarrow> nat \<Rightarrow> GenRegister \<Rightarrow> nat option" where
  "getIndex ctx policy grfN reg =
     (if physical reg then
        (if reg_file reg \<noteq> GEN_ARCHITECTURE_REGISTER_FILE then None
         else (let file = nr reg AND 0xf0;
                   n = nr reg AND 0x0f
               in if file = GEN_ARF_FLAG ctx then
                    (let sub = subnr reg div 2
                     in if n < MAX_FLAG_REGISTER \<and> (sub = 0 \<or> sub = 1)
                        then Some (grfN + 2 * n + sub) else None)
                  else if file = GEN_ARF_ACCUMULATOR ctx then
                    (if n < MAX_ACC_REGISTER then Some (grfN + MAX_FLAG_REGISTER + n) else None)
                  else None))
      else if policy = POST_ALLOC then
        (let physicalReg = ra_genReg ctx reg;
             simdWidth = ctxSimdWidth ctx
         in Some (if simdWidth = 8 then nr physicalReg else nr physicalReg div 2))
      else Some (value_reg reg))"

text \<open>\<open>getIndex(uint32_t bti)\<close>: the resource of a memory system.\<close>

definition getIndexBti :: "nat \<Rightarrow> nat \<Rightarrow> nat" where
  "getIndexBti grfN bti =
     (let memDelta = grfN + MAX_FLAG_REGISTER + MAX_ACC_REGISTER
      in if bti = 0xfe then memDelta + LOCAL_MEMORY else memDelta + GLOBAL_MEMORY)"

definition getFlag :: "GenContext \<Rightarrow> SelectionInstruction \<Rightarrow> GenRegister" where
  "getFlag ctx i =
     (if physicalFlag (state i) then flagReg ctx (flag (state i)) (subFlag (state i))
      else uw1grf ctx (flagIndex (state i)))"


text \<open>
  An instance of the parameters for the examples: the allocator packs eight virtual
  registers into each physical register from \<open>g20\<close> on, at sub-register offsets of four
  bytes; the constants have the values of the Gen architecture; the tables are coarse.
\<close>

definition exampleGenContext :: "nat \<Rightarrow> GenContext" where
  "exampleGenContext w =
     \<lparr>ctxSimdWidth = w,
      ra_genReg = (\<lambda>r. r\<lparr>nr := 20 + value_reg r div 8, subnr := 4 * (value_reg r mod 8)\<rparr>),
      sel_regNum = 32,
      GEN_ARF_NULL = 0x00, GEN_ARF_FLAG = 0x30, GEN_ARF_ACCUMULATOR = 0x20,
      GEN_PREDICATE_NONE = 0,
      flagReg = (\<lambda>n s. \<lparr>reg_file = GEN_ARCHITECTURE_REGISTER_FILE, nr = 0x30 OR n, subnr = 2 * s,
                         physical = True, value_reg = 0\<rparr>),
      accReg = \<lparr>reg_file = GEN_ARCHITECTURE_REGISTER_FILE, nr = 0x20, subnr = 0,
                physical = True, value_reg = 0\<rparr>,
      uw1grf = (\<lambda>v. \<lparr>reg_file = GEN_GENERAL_REGISTER_FILE, nr = 0, subnr = 0,
                      physical = False, value_reg = v\<rparr>),
      getLatencyGen7 = (\<lambda>opc. if opc \<in> {SEL_OP_UNTYPED_READ, SEL_OP_BYTE_GATHER} then 80
                               else if opc = SEL_OP_MATH then 20 else 10),
      getThroughputGen7 = (\<lambda>opc isSIMD8. if isSIMD8 then 2 else 4)\<rparr>"

definition grf :: "nat \<Rightarrow> GenRegister" where
  "grf v = \<lparr>reg_file = GEN_GENERAL_REGISTER_FILE, nr = 0, subnr = 0, physical = False, value_reg = v\<rparr>"



subsection \<open>Building the DAG\<close>

text \<open>
  \<open>node0->dependsOn(node1)\<close> walks the children of \<open>this\<close> and compares each child
  with \<open>this\<close>; its argument is only asserted to be non-NULL.
\<close>

definition dependsOn :: "ScheduleDAGNode list \<Rightarrow> nat \<Rightarrow> nat \<Rightarrow> bool" where
  "dependsOn dg this node = list_ex (\<lambda>child. child = this) (children (dg ! this))"

text \<open>
  \<open>addDependency(node0, node1)\<close>, "node0 depends on node1": \<open>node0->refNum++\<close> and
  \<open>node1->children.push_back(node0)\<close>.
\<close>

definition addDependency ::
  "nat option \<Rightarrow> nat option \<Rightarrow> ScheduleDAGNode list \<Rightarrow> ScheduleDAGNode list" where
  "addDependency node0 node1 dg =
     (case node0 of
        None \<Rightarrow> dg
      | Some n0 \<Rightarrow>
          (case node1 of
             None \<Rightarrow> dg
           | Some n1 \<Rightarrow>
               if n0 \<noteq> n1 \<and> \<not> dependsOn dg n0 n1 then
                 (let dg1 = dg[n0 := (dg ! n0)\<lparr>refNum := refNum (dg ! n0) + 1\<rparr>]
                  in dg1[n1 := (dg1 ! n1)\<lparr>children := children (dg1 ! n1) @ [n0]\<rparr>])
               else dg))"

text \<open>
  \<open>addDependency(node, index)\<close> and \<open>addDependency(index, node)\<close> read \<open>nodes[index]\<close>;
  \<open>None\<close> is a read outside the vector.
\<close>

definition addDependency_node_index ::
  "DependencyTracker \<Rightarrow> nat \<Rightarrow> nat \<Rightarrow> DependencyTracker option" where
  "addDependency_node_index tr node index =
     (if index < length (nodes tr)
      then Some (tr\<lparr>dag := addDependency (Some node) (nodes tr ! index) (dag tr)\<rparr>)
      else None)"

definition addDependency_index_node ::
  "DependencyTracker \<Rightarrow> nat \<Rightarrow> nat \<Rightarrow> DependencyTracker option" where
  "addDependency_index_node tr index node =
     (if index < length (nodes tr)
      then Some (tr\<lparr>dag := addDependency (nodes tr ! index) (Some node) (dag tr)\<rparr>)
      else None)"

text \<open>
  The resource indices that the statements of \<open>buildDAG\<close> and \<open>updateWrites\<close> pass on,
  in the order of the statements. \<open>regIndex\<close> is the index used by
  \<open>addDependency(node, reg)\<close> and \<open>addDependency(reg, node)\<close>: none for a register that
  \<open>ignoreDependency\<close> excludes. \<open>None\<close> where \<open>getIndex\<close> fails.
\<close>

definition regIndex :: "GenContext \<Rightarrow> SchedulePolicy \<Rightarrow> nat \<Rightarrow> GenRegister \<Rightarrow> nat list option" where
  "regIndex ctx policy grfN reg =
     (if ignoreDependency ctx reg = False
      then map_option (\<lambda>index. [index]) (getIndex ctx policy grfN reg)
      else Some [])"

definition concatOpt :: "'a list option list \<Rightarrow> 'a list option" where
  "concatOpt xs = map_option concat (those xs)"

definition isBarrierOrWait :: "SelectionInstruction \<Rightarrow> bool" where
  "isBarrierOrWait i = (opcode i = SEL_OP_BARRIER \<or> opcode i = SEL_OP_WAIT)"

text \<open>
  The reads of an instruction: its sources, its predicate flag, the memory it reads, and
  for barriers and waits the local and the global memory.
\<close>

definition readIndices ::
  "GenContext \<Rightarrow> SchedulePolicy \<Rightarrow> nat \<Rightarrow> SelectionInstruction \<Rightarrow> nat list option" where
  "readIndices ctx policy grfN i =
     concatOpt
       (map (regIndex ctx policy grfN) (src i)
        @ [if predicate (state i) \<noteq> GEN_PREDICATE_NONE ctx
             then regIndex ctx policy grfN (getFlag ctx i) else Some [],
           if isRead i then Some [getIndexBti grfN (extra_function i)] else Some [],
           if isBarrierOrWait i then Some [getIndexBti grfN 0xfe, getIndexBti grfN 0x00]
             else Some []])"

text \<open>
  The writes of an instruction as the write-after-write statements of \<open>buildDAG\<close> take
  them: its destinations, the flag of a compare, the accumulator, the memory it writes,
  and for barriers and waits the local and the global memory.
\<close>

definition writeIndices ::
  "GenContext \<Rightarrow> SchedulePolicy \<Rightarrow> nat \<Rightarrow> SelectionInstruction \<Rightarrow> nat list option" where
  "writeIndices ctx policy grfN i =
     concatOpt
       (map (regIndex ctx policy grfN) (dst i)
        @ [if opcode i = SEL_OP_CMP then regIndex ctx policy grfN (getFlag ctx i) else Some [],
           if accWrEnable (state i) then regIndex ctx policy grfN (accReg ctx) else Some [],
           if isWrite i then Some [getIndexBti grfN (extra_function i)] else Some [],
           if isBarrierOrWait i then Some [getIndexBti grfN 0xfe, getIndexBti grfN 0x00]
             else Some []])"

text \<open>
  The indices \<open>updateWrites\<close> stores to: as above, but the flag and the accumulator go
  to \<open>getIndex\<close> directly, and the global memory is stored before the local one.
\<close>

definition updateWritesIndices ::
  "GenContext \<Rightarrow> SchedulePolicy \<Rightarrow> nat \<Rightarrow> SelectionInstruction \<Rightarrow> nat list option" where
  "updateWritesIndices ctx policy grfN i =
     concatOpt
       (map (regIndex ctx policy grfN) (dst i)
        @ [if opcode i = SEL_OP_CMP
             then map_option (\<lambda>index. [index]) (getIndex ctx policy grfN (getFlag ctx i))
             else Some [],
           if accWrEnable (state i)
             then map_option (\<lambda>index. [index]) (getIndex ctx policy grfN (accReg ctx))
             else Some [],
           if isWrite i then Some [getIndexBti grfN (extra_function i)] else Some [],
           if isBarrierOrWait i then Some [getIndexBti grfN 0x00, getIndexBti grfN 0xfe]
             else Some []])"

text \<open>\<open>tracker.addDependency(node, index)\<close> for each index of a list, in order.\<close>

fun addDependencies_node ::
  "DependencyTracker \<Rightarrow> nat \<Rightarrow> nat list \<Rightarrow> DependencyTracker option" where
  "addDependencies_node tr node [] = Some tr"
| "addDependencies_node tr node (index # rest) =
     (case addDependency_node_index tr node index of
        None \<Rightarrow> None
      | Some tr' \<Rightarrow> addDependencies_node tr' node rest)"

text \<open>\<open>tracker.addDependency(index, node)\<close> for each index of a list, in order.\<close>

fun addDependencies_index ::
  "DependencyTracker \<Rightarrow> nat list \<Rightarrow> nat \<Rightarrow> DependencyTracker option" where
  "addDependencies_index tr [] node = Some tr"
| "addDependencies_index tr (index # rest) node =
     (case addDependency_index_node tr index node of
        None \<Rightarrow> None
      | Some tr' \<Rightarrow> addDependencies_index tr' rest node)"

text \<open>\<open>this->nodes[index] = node\<close> for each index of a list; \<open>None\<close> outside the vector.\<close>

fun setWriters :: "DependencyTracker \<Rightarrow> nat \<Rightarrow> nat list \<Rightarrow> DependencyTracker option" where
  "setWriters tr node [] = Some tr"
| "setWriters tr node (index # rest) =
     (if index < length (nodes tr)
      then setWriters (tr\<lparr>nodes := (nodes tr)[index := Some node]\<rparr>) node rest
      else None)"

definition updateWrites ::
  "GenContext \<Rightarrow> SchedulePolicy \<Rightarrow> DependencyTracker \<Rightarrow> nat \<Rightarrow> DependencyTracker option" where
  "updateWrites ctx policy tr node =
     (case updateWritesIndices ctx policy (grfNum tr) (insn (dag tr ! node)) of
        None \<Rightarrow> None
      | Some ws \<Rightarrow> setWriters tr node ws)"

text \<open>
  The first loop of \<open>buildDAG\<close>, over the instructions of the block: a new node, the
  read-after-write and write-after-write dependencies on the last writers, then
  \<open>updateWrites\<close>. The new node is \<open>insnNodes[insnNum++]\<close>.
\<close>

fun forwardPass ::
  "GenContext \<Rightarrow> SchedulePolicy \<Rightarrow> SelectionInstruction list \<Rightarrow> DependencyTracker
     \<Rightarrow> DependencyTracker option" where
  "forwardPass ctx policy [] tr = Some tr"
| "forwardPass ctx policy (i # rest) tr =
     (let node = length (dag tr);
          tr1 = tr\<lparr>dag := dag tr @ [newScheduleDAGNode i]\<rparr>
      in case readIndices ctx policy (grfNum tr) i of
           None \<Rightarrow> None
         | Some rs \<Rightarrow>
        (case addDependencies_node tr1 node rs of
           None \<Rightarrow> None
         | Some tr2 \<Rightarrow>
        (case writeIndices ctx policy (grfNum tr) i of
           None \<Rightarrow> None
         | Some ws \<Rightarrow>
        (case addDependencies_node tr2 node ws of
           None \<Rightarrow> None
         | Some tr3 \<Rightarrow>
        (case updateWrites ctx policy tr3 node of
           None \<Rightarrow> None
         | Some tr4 \<Rightarrow> forwardPass ctx policy rest tr4)))))"

text \<open>
  The second loop, from the last instruction to the first: the next writers of what the
  instruction reads depend on it (write after read), then \<open>updateWrites\<close>.
\<close>

fun backwardPass ::
  "GenContext \<Rightarrow> SchedulePolicy \<Rightarrow> nat list \<Rightarrow> DependencyTracker \<Rightarrow> DependencyTracker option" where
  "backwardPass ctx policy [] tr = Some tr"
| "backwardPass ctx policy (insnID # rest) tr =
     (case readIndices ctx policy (grfNum tr) (insn (dag tr ! insnID)) of
        None \<Rightarrow> None
      | Some rs \<Rightarrow>
     (case addDependencies_index tr rs insnID of
        None \<Rightarrow> None
      | Some tr1 \<Rightarrow>
     (case updateWrites ctx policy tr1 insnID of
        None \<Rightarrow> None
      | Some tr2 \<Rightarrow> backwardPass ctx policy rest tr2)))"

text \<open>\<open>makeBarrier\<close> and the third loop, over the branches, labels and \<open>SEL_OP_EOT\<close>.\<close>

definition makeBarrier :: "nat \<Rightarrow> nat \<Rightarrow> ScheduleDAGNode list \<Rightarrow> ScheduleDAGNode list" where
  "makeBarrier barrierID insnNum dg =
     (let dg1 = foldl (\<lambda>d insnID. addDependency (Some barrierID) (Some insnID) d) dg [0..<barrierID]
      in foldl (\<lambda>d insnID. addDependency (Some insnID) (Some barrierID) d) dg1
           [barrierID + 1..<insnNum])"

definition isBarrierInsn :: "SelectionInstruction \<Rightarrow> bool" where
  "isBarrierInsn i = (isBranch i \<or> isLabel i \<or> opcode i = SEL_OP_EOT)"

definition barrierPass :: "nat \<Rightarrow> ScheduleDAGNode list \<Rightarrow> ScheduleDAGNode list" where
  "barrierPass insnNum dg =
     foldl (\<lambda>d insnID. if isBarrierInsn (insn (d ! insnID)) then makeBarrier insnID insnNum d else d)
       dg [0..<insnNum]"

text \<open>
  The scheduler: the tracker and the two lists. \<open>buildDAG\<close> returns the number of
  instructions and leaves the DAG and the initial ready list in the scheduler.
\<close>

record SelectionScheduler =
  tracker :: DependencyTracker
  ready :: "nat list"
  active :: "nat list"

definition newSelectionScheduler :: "GenContext \<Rightarrow> SchedulePolicy \<Rightarrow> SelectionScheduler option" where
  "newSelectionScheduler ctx policy =
     map_option (\<lambda>tr. \<lparr>tracker = tr, ready = [], active = []\<rparr>) (newDependencyTracker ctx policy)"

definition buildDAG ::
  "GenContext \<Rightarrow> SchedulePolicy \<Rightarrow> SelectionScheduler \<Rightarrow> SelectionInstruction list
     \<Rightarrow> (nat \<times> SelectionScheduler) option" where
  "buildDAG ctx policy s insnList =
     (case forwardPass ctx policy insnList ((clear (tracker s))\<lparr>dag := []\<rparr>) of
        None \<Rightarrow> None
      | Some tr1 \<Rightarrow>
          (let insnNum = length (dag tr1)
           in case backwardPass ctx policy (rev [0..<insnNum]) (clear tr1) of
                None \<Rightarrow> None
              | Some tr2 \<Rightarrow>
                  (let dg = barrierPass insnNum (dag tr2)
                   in Some (insnNum,
                        \<lparr>tracker = tr2\<lparr>dag := dg\<rparr>,
                         ready = filter (\<lambda>insnID. refNum (dg ! insnID) = 0) [0..<insnNum],
                         active = []\<rparr>))))"

subsection \<open>Scheduling the DAG\<close>

text \<open>
  Modelled from the spec: the lists \<open>ready\<close>, \<open>active\<close> and \<open>children\<close> are
  \<open>intrusive_list\<close>s, and sys/intrusive\_list.hpp is not among the sources at hand. Such
  a list is a HOL list here: \<open>push_back\<close> appends at the end, \<open>erase\<close> removes one
  element and keeps the order of the others, \<open>begin()\<close> is the first element (the
  oldest one, "FIFO scheduling") and \<open>rbegin()\<close> the last one (the one pushed most
  recently, "LIFO scheduling"); on an empty list both are \<open>end()\<close>.
\<close>

text \<open>
  The inner loop of the retirement: every child of a retired node loses one reference;
  a child without reference left is unlinked from the children and pushed to the back of
  the ready list. The result is the children that stay linked, the DAG and the ready list.
\<close>

fun releaseChildren ::
  "nat list \<Rightarrow> ScheduleDAGNode list \<Rightarrow> nat list \<Rightarrow> nat list \<times> ScheduleDAGNode list \<times> nat list" where
  "releaseChildren [] dg rdy = ([], dg, rdy)"
| "releaseChildren (c # cs) dg rdy =
     (let dg1 = dg[c := (dg ! c)\<lparr>refNum := refNum (dg ! c) - 1\<rparr>]
      in if refNum (dg1 ! c) = 0 then releaseChildren cs dg1 (rdy @ [c])
         else (let (kept, dg2, rdy2) = releaseChildren cs dg1 rdy in (c # kept, dg2, rdy2)))"

text \<open>
  The retirement loop over the active list: a node whose \<open>retiredCycle\<close> is not after
  \<open>cycle\<close> leaves the list and releases its children. The result is the active list
  that remains, the DAG and the ready list.
\<close>

fun retire ::
  "nat list \<Rightarrow> 32 word \<Rightarrow> ScheduleDAGNode list \<Rightarrow> nat list
     \<Rightarrow> nat list \<times> ScheduleDAGNode list \<times> nat list" where
  "retire [] cyc dg rdy = ([], dg, rdy)"
| "retire (toRetire # rest) cyc dg rdy =
     (if retiredCycle (dg ! toRetire) \<le> cyc then
        (let (kept, dg1, rdy1) = releaseChildren (children (dg ! toRetire)) dg rdy;
             dg2 = dg1[toRetire := (dg1 ! toRetire)\<lparr>children := kept\<rparr>]
         in retire rest cyc dg2 rdy1)
      else (let (rest', dg1, rdy1) = retire rest cyc dg rdy in (toRetire # rest', dg1, rdy1)))"

text \<open>
  The state of the loop of \<open>scheduleDAG\<close>: the DAG and the two lists of the scheduler,
  the simulated clock, the number of instructions still to emit and the instructions
  appended to the block so far. An appended instruction is the pointer
  \<open>&toSchedule->node->insn\<close>, here the position of the instruction in the original
  block.
\<close>

record ScheduleLoop =
  loopDag :: "ScheduleDAGNode list"
  loopReady :: "nat list"
  loopActive :: "nat list"
  cycle :: "32 word"
  insnNum :: nat
  appended :: "nat list"

text \<open>
  One iteration of \<open>while (insnNum)\<close>: the retirement, then either the instruction at
  the front (FIFO, after allocation) or at the back (LIFO, before allocation) of the
  ready list is issued, or the clock advances by one.
\<close>

definition scheduleStep :: "GenContext \<Rightarrow> SchedulePolicy \<Rightarrow> ScheduleLoop \<Rightarrow> ScheduleLoop" where
  "scheduleStep ctx policy st =
     (let isSIMD8 = (ctxSimdWidth ctx = 8);
          (act, dg, rdy) = retire (loopActive st) (cycle st) (loopDag st) (loopReady st)
      in if rdy \<noteq> [] then
           (let toSchedule = (if policy = POST_ALLOC then hd rdy else last rdy);
                opc = opcode (insn (dg ! toSchedule));
                cyc = (if policy = POST_ALLOC then cycle st + getThroughputGen7 ctx opc isSIMD8
                       else cycle st);
                rdy' = (if policy = POST_ALLOC then tl rdy else butlast rdy);
                retired = (if policy = POST_ALLOC then cyc + getLatencyGen7 ctx opc else cyc)
            in \<lparr>loopDag = dg[toSchedule := (dg ! toSchedule)\<lparr>retiredCycle := retired\<rparr>],
                loopReady = rdy',
                loopActive = act @ [toSchedule],
                cycle = cyc,
                insnNum = insnNum st - 1,
                appended = appended st @ [toSchedule]\<rparr>)
         else
           \<lparr>loopDag = dg, loopReady = rdy, loopActive = act, cycle = cycle st + 1,
            insnNum = insnNum st, appended = appended st\<rparr>)"

text \<open>The loop itself; it has no exit but \<open>insnNum = 0\<close>, and \<open>None\<close> is not to return.\<close>

partial_function (option) scheduleLoop ::
  "GenContext \<Rightarrow> SchedulePolicy \<Rightarrow> ScheduleLoop \<Rightarrow> ScheduleLoop option" where
  "scheduleLoop ctx policy st =
     (if insnNum st = 0 then Some st else scheduleLoop ctx policy (scheduleStep ctx policy st))"

declare scheduleLoop.simps [code]

text \<open>
  \<open>scheduleDAG(bb, insnNum)\<close> on the block that the caller has cleared: the result is
  the scheduler and the instructions appended to the block, in order.
\<close>

definition scheduleDAG ::
  "GenContext \<Rightarrow> SchedulePolicy \<Rightarrow> SelectionScheduler \<Rightarrow> nat \<Rightarrow> (SelectionScheduler \<times> nat list) option" where
  "scheduleDAG ctx policy s n =
     (case scheduleLoop ctx policy
             \<lparr>loopDag = dag (tracker s), loopReady = ready s, loopActive = active s,
              cycle = 0, insnNum = n, appended = []\<rparr> of
        None \<Rightarrow> None
      | Some st \<Rightarrow>
          Some (s\<lparr>tracker := (tracker s)\<lparr>dag := loopDag st\<rparr>,
                  ready := loopReady st, active := loopActive st\<rparr>,
                appended st))"

text \<open>
  \<open>schedulePreRegAllocation\<close> and \<open>schedulePostRegAllocation\<close> on one block, with the
  scheduling switched on: \<open>buildDAG\<close>, \<open>bb.insnList.clear()\<close>, \<open>scheduleDAG\<close>. The
  result is the new instruction list of the block.
\<close>

definition scheduleBlock ::
  "GenContext \<Rightarrow> SchedulePolicy \<Rightarrow> SelectionScheduler \<Rightarrow> SelectionInstruction list
     \<Rightarrow> (SelectionScheduler \<times> SelectionInstruction list) option" where
  "scheduleBlock ctx policy s insnList =
     (case buildDAG ctx policy s insnList of
        None \<Rightarrow> None
      | Some (n, s1) \<Rightarrow>
          (case scheduleDAG ctx policy s1 n of
             None \<Rightarrow> None
           | Some (s2, order) \<Rightarrow> Some (s2, map (\<lambda>insnID. insnList ! insnID) order)))"

subsection \<open>The invariants of the DAG\<close>

text \<open>
  Every edge goes from a node to a node later in the block, and \<open>refNum\<close> of a node
  is the number of edges that enter it, as a 32-bit number. A node is identified with the
  position of its instruction in the block; the children of a node are the nodes that
  depend on it.
\<close>

definition edgesForward :: "ScheduleDAGNode list \<Rightarrow> bool" where
  "edgesForward dg = (\<forall>i < length dg. \<forall>c \<in> set (children (dg ! i)). i < c \<and> c < length dg)"

definition allChildren :: "ScheduleDAGNode list \<Rightarrow> nat multiset" where
  "allChildren dg = sum_list (map (\<lambda>nd. mset (children nd)) dg)"

definition refNumsOK :: "ScheduleDAGNode list \<Rightarrow> bool" where
  "refNumsOK dg = (\<forall>c < length dg. refNum (dg ! c) = of_nat (count (allChildren dg) c))"

lemma sum_list_mset_update:
  "i < length xs \<Longrightarrow> sum_list (xs[i := (y :: 'a multiset)]) + xs ! i = sum_list xs + y"
proof (induction xs arbitrary: i)
  case Nil
  then show ?case by simp
next
  case (Cons a xs)
  show ?case
  proof (cases i)
    case 0
    then show ?thesis by simp
  next
    case (Suc j)
    with Cons.prems have "j < length xs" by simp
    from Cons.IH [OF this] Suc show ?thesis
      by (simp add: add.assoc)
  qed
qed

lemma allChildren_update:
  "i < length dg \<Longrightarrow>
   allChildren (dg[i := nd]) + mset (children (dg ! i)) = allChildren dg + mset (children nd)"
  using sum_list_mset_update [of i "map (\<lambda>nd. mset (children nd)) dg" "mset (children nd)"]
  by (simp add: allChildren_def map_update)

lemma allChildren_update_same:
  "i < length dg \<Longrightarrow> children nd = children (dg ! i) \<Longrightarrow> allChildren (dg[i := nd]) = allChildren dg"
  using allChildren_update [of i dg nd] by simp

lemma allChildren_update_snoc:
  "i < length dg \<Longrightarrow> children nd = children (dg ! i) @ [x] \<Longrightarrow>
   allChildren (dg[i := nd]) = allChildren dg + {#x#}"
  using allChildren_update [of i dg nd] by simp

lemma allChildren_snoc [simp]:
  "allChildren (dg @ [nd]) = allChildren dg + mset (children nd)"
  by (simp add: allChildren_def)

lemma in_allChildren:
  "c \<in># allChildren dg \<longleftrightarrow> (\<exists>i < length dg. c \<in> set (children (dg ! i)))"
proof -
  have "c \<in># allChildren dg \<longleftrightarrow> (\<exists>nd \<in> set dg. c \<in> set (children nd))"
    by (simp add: allChildren_def)
  also have "\<dots> \<longleftrightarrow> (\<exists>i < length dg. c \<in> set (children (dg ! i)))"
    by (metis in_set_conv_nth)
  finally show ?thesis .
qed

lemma not_dependsOn:
  assumes "edgesForward dg" "n0 < length dg"
  shows "\<not> dependsOn dg n0 n1"
proof
  assume "dependsOn dg n0 n1"
  then have "n0 \<in> set (children (dg ! n0))"
    by (simp add: dependsOn_def list_ex_iff)
  with assms have "n0 < n0"
    unfolding edgesForward_def by blast
  then show False by simp
qed

lemma length_addDependency [simp]: "length (addDependency node0 node1 dg) = length dg"
  by (simp add: addDependency_def Let_def split: option.splits)

lemma insn_addDependency [simp]:
  "insn (addDependency node0 node1 dg ! i) = insn (dg ! i)"
  by (simp add: addDependency_def Let_def nth_upd split: option.splits)

lemma retiredCycle_addDependency [simp]:
  "retiredCycle (addDependency node0 node1 dg ! i) = retiredCycle (dg ! i)"
  by (simp add: addDependency_def Let_def nth_upd split: option.splits)

lemma addDependency_edge:
  assumes "edgesForward dg" "n1 < n0" "n0 < length dg"
  shows "addDependency (Some n0) (Some n1) dg =
           (dg[n0 := (dg ! n0)\<lparr>refNum := refNum (dg ! n0) + 1\<rparr>])
             [n1 := (dg ! n1)\<lparr>children := children (dg ! n1) @ [n0]\<rparr>]"
  using assms not_dependsOn [OF assms(1,3), of n1]
  by (simp add: addDependency_def Let_def)

lemma children_addDependency:
  assumes "edgesForward dg" "n1 < n0" "n0 < length dg" "i < length dg"
  shows "children (addDependency (Some n0) (Some n1) dg ! i)
           = (if i = n1 then children (dg ! i) @ [n0] else children (dg ! i))"
  using assms by (simp add: addDependency_edge nth_upd)

lemma refNum_addDependency:
  assumes "edgesForward dg" "n1 < n0" "n0 < length dg" "i < length dg"
  shows "refNum (addDependency (Some n0) (Some n1) dg ! i)
           = (if i = n0 then refNum (dg ! i) + 1 else refNum (dg ! i))"
  using assms by (simp add: addDependency_edge nth_upd)

lemma allChildren_addDependency:
  assumes "edgesForward dg" "n1 < n0" "n0 < length dg"
  shows "allChildren (addDependency (Some n0) (Some n1) dg) = allChildren dg + {#n0#}"
proof -
  let ?dg1 = "dg[n0 := (dg ! n0)\<lparr>refNum := refNum (dg ! n0) + 1\<rparr>]"
  have "allChildren ?dg1 = allChildren dg"
    using assms by (intro allChildren_update_same) auto
  moreover have "allChildren (?dg1[n1 := (dg ! n1)\<lparr>children := children (dg ! n1) @ [n0]\<rparr>])
        = allChildren ?dg1 + {#n0#}"
    using assms by (intro allChildren_update_snoc) auto
  ultimately show ?thesis
    using assms by (simp add: addDependency_edge)
qed

lemma edgesForward_addDependency:
  assumes "edgesForward dg" "n1 < n0" "n0 < length dg"
  shows "edgesForward (addDependency (Some n0) (Some n1) dg)"
  unfolding edgesForward_def
proof (intro allI impI ballI)
  fix i c
  assume i: "i < length (addDependency (Some n0) (Some n1) dg)"
    and c: "c \<in> set (children (addDependency (Some n0) (Some n1) dg ! i))"
  from i have i': "i < length dg" by simp
  from c children_addDependency [OF assms i']
  have "c \<in> set (children (dg ! i)) \<or> (i = n1 \<and> c = n0)"
    by (auto split: if_splits)
  then show "i < c \<and> c < length (addDependency (Some n0) (Some n1) dg)"
  proof
    assume "c \<in> set (children (dg ! i))"
    with assms(1) i' have "i < c \<and> c < length dg"
      unfolding edgesForward_def by blast
    then show ?thesis by simp
  next
    assume "i = n1 \<and> c = n0"
    with assms(2,3) show ?thesis by simp
  qed
qed

lemma refNumsOK_addDependency:
  assumes "edgesForward dg" "refNumsOK dg" "n1 < n0" "n0 < length dg"
  shows "refNumsOK (addDependency (Some n0) (Some n1) dg)"
  unfolding refNumsOK_def
proof (intro allI impI)
  fix c assume "c < length (addDependency (Some n0) (Some n1) dg)"
  then have c: "c < length dg" by simp
  from assms(2) c have r: "refNum (dg ! c) = of_nat (count (allChildren dg) c)"
    by (simp add: refNumsOK_def)
  show "refNum (addDependency (Some n0) (Some n1) dg ! c)
        = of_nat (count (allChildren (addDependency (Some n0) (Some n1) dg)) c)"
    using r by (auto simp: refNum_addDependency [OF assms(1,3,4) c]
                  allChildren_addDependency [OF assms(1,3,4)])
qed

text \<open>The invariant of a DAG under construction.\<close>

definition dagOK :: "ScheduleDAGNode list \<Rightarrow> bool" where
  "dagOK dg = (edgesForward dg \<and> refNumsOK dg)"

lemma dagOK_addDependency:
  "dagOK dg \<Longrightarrow> n1 < n0 \<Longrightarrow> n0 < length dg \<Longrightarrow> dagOK (addDependency (Some n0) (Some n1) dg)"
  by (simp add: dagOK_def edgesForward_addDependency refNumsOK_addDependency)

lemma addDependency_None [simp]:
  "addDependency None node1 dg = dg" "addDependency node0 None dg = dg"
  by (simp_all add: addDependency_def split: option.splits)

lemma children_mono_addDependency:
  "dagOK dg \<Longrightarrow> n1 < n0 \<Longrightarrow> n0 < length dg \<Longrightarrow> i < length dg \<Longrightarrow>
   set (children (dg ! i)) \<subseteq> set (children (addDependency (Some n0) (Some n1) dg ! i))"
  by (auto simp: dagOK_def children_addDependency)

lemma dagOK_snoc:
  assumes "dagOK dg"
  shows "dagOK (dg @ [newScheduleDAGNode i])"
proof -
  from assms have ef: "edgesForward dg" and rn: "refNumsOK dg" by (simp_all add: dagOK_def)
  have ef': "edgesForward (dg @ [newScheduleDAGNode i])"
    unfolding edgesForward_def
  proof (intro allI impI ballI)
    fix k c assume k: "k < length (dg @ [newScheduleDAGNode i])"
      and c: "c \<in> set (children ((dg @ [newScheduleDAGNode i]) ! k))"
    show "k < c \<and> c < length (dg @ [newScheduleDAGNode i])"
    proof (cases "k < length dg")
      case True
      with c have "c \<in> set (children (dg ! k))" by (simp add: nth_append)
      with ef True have "k < c \<and> c < length dg" unfolding edgesForward_def by blast
      then show ?thesis by simp
    next
      case False
      with k have "k = length dg" by simp
      with c show ?thesis by (simp add: newScheduleDAGNode_def)
    qed
  qed
  have ac: "allChildren (dg @ [newScheduleDAGNode i]) = allChildren dg"
    by (simp add: newScheduleDAGNode_def)
  have "length dg \<notin># allChildren dg"
  proof
    assume "length dg \<in># allChildren dg"
    then obtain k where "k < length dg" "length dg \<in> set (children (dg ! k))"
      using in_allChildren by blast
    with ef have "length dg < length dg" unfolding edgesForward_def by blast
    then show False by simp
  qed
  then have z: "count (allChildren dg) (length dg) = 0" by (simp add: count_eq_zero_iff)
  have "refNumsOK (dg @ [newScheduleDAGNode i])"
    unfolding refNumsOK_def
  proof (intro allI impI)
    fix c assume c: "c < length (dg @ [newScheduleDAGNode i])"
    show "refNum ((dg @ [newScheduleDAGNode i]) ! c)
          = of_nat (count (allChildren (dg @ [newScheduleDAGNode i])) c)"
    proof (cases "c < length dg")
      case True
      with rn show ?thesis by (simp add: nth_append refNumsOK_def newScheduleDAGNode_def)
    next
      case False
      with c have "c = length dg" by simp
      then show ?thesis by (simp add: z newScheduleDAGNode_def)
    qed
  qed
  with ef' show ?thesis by (simp add: dagOK_def)
qed

definition writersIn :: "nat set \<Rightarrow> DependencyTracker \<Rightarrow> bool" where
  "writersIn S tr = (\<forall>w \<in> set (nodes tr). \<forall>j. w = Some j \<longrightarrow> j \<in> S)"

lemma writersIn_nth:
  "writersIn S tr \<Longrightarrow> index < length (nodes tr) \<Longrightarrow> nodes tr ! index = Some j \<Longrightarrow> j \<in> S"
  unfolding writersIn_def using nth_mem by blast

lemma writersIn_mono: "writersIn S tr \<Longrightarrow> S \<subseteq> T \<Longrightarrow> writersIn T tr"
  unfolding writersIn_def by blast

lemma writersIn_clear [simp]: "writersIn S (clear tr)"
  by (simp add: writersIn_def clear_def)

text \<open>The parts of a tracker that a step leaves alone.\<close>

definition sameShape :: "DependencyTracker \<Rightarrow> DependencyTracker \<Rightarrow> bool" where
  "sameShape tr tr' =
     (grfNum tr' = grfNum tr \<and> length (nodes tr') = length (nodes tr)
      \<and> map insn (dag tr') = map insn (dag tr))"

lemma sameShape_refl [simp]: "sameShape tr tr"
  by (simp add: sameShape_def)

lemma sameShape_trans: "sameShape a b \<Longrightarrow> sameShape b c \<Longrightarrow> sameShape a c"
  by (simp add: sameShape_def)

lemma sameShape_length: "sameShape tr tr' \<Longrightarrow> length (dag tr') = length (dag tr)"
  unfolding sameShape_def using map_eq_imp_length_eq by metis

lemma map_insn_addDependency [simp]:
  "map insn (addDependency node0 node1 dg) = map insn dg"
  by (simp add: list_eq_iff_nth_eq)

lemma addDependency_node_index_props:
  assumes "addDependency_node_index tr node index = Some tr'"
    and "dagOK (dag tr)" "writersIn S tr" "\<forall>j \<in> S. j < node" "node < length (dag tr)"
  shows "dagOK (dag tr') \<and> nodes tr' = nodes tr \<and> sameShape tr tr'"
proof -
  from assms(1) have i: "index < length (nodes tr)"
    and tr': "tr' = tr\<lparr>dag := addDependency (Some node) (nodes tr ! index) (dag tr)\<rparr>"
    by (auto simp: addDependency_node_index_def split: if_splits)
  have "dagOK (addDependency (Some node) (nodes tr ! index) (dag tr))"
  proof (cases "nodes tr ! index")
    case None
    then show ?thesis using assms(2) by simp
  next
    case (Some j)
    with writersIn_nth [OF assms(3) i] assms(4) have "j < node" by blast
    with Some show ?thesis using dagOK_addDependency [OF assms(2) _ assms(5)] by simp
  qed
  then show ?thesis by (simp add: tr' sameShape_def)
qed

lemma addDependencies_node_props:
  "addDependencies_node tr node rs = Some tr' \<Longrightarrow>
   dagOK (dag tr) \<Longrightarrow> writersIn S tr \<Longrightarrow> \<forall>j \<in> S. j < node \<Longrightarrow> node < length (dag tr) \<Longrightarrow>
   dagOK (dag tr') \<and> nodes tr' = nodes tr \<and> sameShape tr tr'"
proof (induction rs arbitrary: tr)
  case Nil
  then show ?case by simp
next
  case (Cons index rs)
  from Cons.prems(1) obtain tr1 where
    s1: "addDependency_node_index tr node index = Some tr1"
    and s2: "addDependencies_node tr1 node rs = Some tr'"
    by (auto split: option.splits)
  from addDependency_node_index_props [OF s1 Cons.prems(2,3,4,5)]
  have p1: "dagOK (dag tr1)" "nodes tr1 = nodes tr" "sameShape tr tr1" by simp_all
  have w1: "writersIn S tr1" using Cons.prems(3) p1(2) by (simp add: writersIn_def)
  have l1: "node < length (dag tr1)" using Cons.prems(5) sameShape_length [OF p1(3)] by simp
  from Cons.IH [OF s2 p1(1) w1 Cons.prems(4) l1] p1 show ?case
    using sameShape_trans by auto
qed

lemma addDependency_index_node_props:
  assumes "addDependency_index_node tr index node = Some tr'"
    and "dagOK (dag tr)" "writersIn S tr" "\<forall>j \<in> S. node < j \<and> j < length (dag tr)"
  shows "dagOK (dag tr') \<and> nodes tr' = nodes tr \<and> sameShape tr tr'"
proof -
  from assms(1) have i: "index < length (nodes tr)"
    and tr': "tr' = tr\<lparr>dag := addDependency (nodes tr ! index) (Some node) (dag tr)\<rparr>"
    by (auto simp: addDependency_index_node_def split: if_splits)
  have "dagOK (addDependency (nodes tr ! index) (Some node) (dag tr))"
  proof (cases "nodes tr ! index")
    case None
    then show ?thesis using assms(2) by simp
  next
    case (Some j)
    with writersIn_nth [OF assms(3) i] assms(4) have "node < j" "j < length (dag tr)" by blast+
    with Some show ?thesis using dagOK_addDependency [OF assms(2)] by simp
  qed
  then show ?thesis by (simp add: tr' sameShape_def)
qed

lemma addDependencies_index_props:
  "addDependencies_index tr rs node = Some tr' \<Longrightarrow>
   dagOK (dag tr) \<Longrightarrow> writersIn S tr \<Longrightarrow> \<forall>j \<in> S. node < j \<and> j < length (dag tr) \<Longrightarrow>
   dagOK (dag tr') \<and> nodes tr' = nodes tr \<and> sameShape tr tr'"
proof (induction rs arbitrary: tr)
  case Nil
  then show ?case by simp
next
  case (Cons index rs)
  from Cons.prems(1) obtain tr1 where
    s1: "addDependency_index_node tr index node = Some tr1"
    and s2: "addDependencies_index tr1 rs node = Some tr'"
    by (auto split: option.splits)
  from addDependency_index_node_props [OF s1 Cons.prems(2,3,4)]
  have p1: "dagOK (dag tr1)" "nodes tr1 = nodes tr" "sameShape tr tr1" by simp_all
  have w1: "writersIn S tr1" using Cons.prems(3) p1(2) by (simp add: writersIn_def)
  have l1: "\<forall>j \<in> S. node < j \<and> j < length (dag tr1)"
    using Cons.prems(4) sameShape_length [OF p1(3)] by simp
  from Cons.IH [OF s2 p1(1) w1 l1] p1 show ?case
    using sameShape_trans by auto
qed

lemma setWriters_props:
  "setWriters tr node ws = Some tr' \<Longrightarrow> writersIn S tr \<Longrightarrow> node \<in> S \<Longrightarrow>
   writersIn S tr' \<and> dag tr' = dag tr \<and> sameShape tr tr'"
proof (induction ws arbitrary: tr)
  case Nil
  then show ?case by simp
next
  case (Cons index ws)
  from Cons.prems(1) have i: "index < length (nodes tr)"
    and s: "setWriters (tr\<lparr>nodes := (nodes tr)[index := Some node]\<rparr>) node ws = Some tr'"
    by (auto split: if_splits)
  have "writersIn S (tr\<lparr>nodes := (nodes tr)[index := Some node]\<rparr>)"
    unfolding writersIn_def
  proof (intro ballI allI impI)
    fix w j assume "w \<in> set (nodes (tr\<lparr>nodes := (nodes tr)[index := Some node]\<rparr>))" "w = Some j"
    then have "w \<in> insert (Some node) (set (nodes tr))"
      using set_update_subset_insert by fastforce
    with \<open>w = Some j\<close> Cons.prems(2,3) show "j \<in> S"
      unfolding writersIn_def by blast
  qed
  from Cons.IH [OF s this Cons.prems(3)] show ?case
    by (simp add: sameShape_def)
qed

lemma updateWrites_props:
  "updateWrites ctx policy tr node = Some tr' \<Longrightarrow> writersIn S tr \<Longrightarrow> node \<in> S \<Longrightarrow>
   writersIn S tr' \<and> dag tr' = dag tr \<and> sameShape tr tr'"
  unfolding updateWrites_def
  using setWriters_props by (auto split: option.splits)

lemma forwardPass_props:
  "forwardPass ctx policy bb tr = Some tr' \<Longrightarrow> dagOK (dag tr) \<Longrightarrow>
   writersIn {..<length (dag tr)} tr \<Longrightarrow>
   dagOK (dag tr') \<and> map insn (dag tr') = map insn (dag tr) @ bb
   \<and> grfNum tr' = grfNum tr \<and> length (nodes tr') = length (nodes tr)"
proof (induction bb arbitrary: tr)
  case Nil
  then show ?case by simp
next
  case (Cons i rest)
  define node where "node = length (dag tr)"
  define tr1 where "tr1 = tr\<lparr>dag := dag tr @ [newScheduleDAGNode i]\<rparr>"
  from Cons.prems(1) obtain rs tr2 ws tr3 tr4 where
    s2: "addDependencies_node tr1 node rs = Some tr2"
    and s3: "addDependencies_node tr2 node ws = Some tr3"
    and s4: "updateWrites ctx policy tr3 node = Some tr4"
    and s5: "forwardPass ctx policy rest tr4 = Some tr'"
    by (auto simp: Let_def node_def tr1_def split: option.splits)
  have below: "\<forall>j \<in> {..<node}. j < node" by simp
  have d1: "dagOK (dag tr1)" using Cons.prems(2) by (simp add: tr1_def dagOK_snoc)
  have w1: "writersIn {..<node} tr1"
    using Cons.prems(3) by (simp add: writersIn_def tr1_def node_def)
  have l1: "node < length (dag tr1)" by (simp add: tr1_def node_def)
  from addDependencies_node_props [OF s2 d1 w1 below l1]
  have p2: "dagOK (dag tr2)" "nodes tr2 = nodes tr1" "sameShape tr1 tr2" by simp_all
  have w2: "writersIn {..<node} tr2" using w1 p2(2) by (simp add: writersIn_def)
  have l2: "node < length (dag tr2)" using l1 sameShape_length [OF p2(3)] by simp
  from addDependencies_node_props [OF s3 p2(1) w2 below l2]
  have p3: "dagOK (dag tr3)" "nodes tr3 = nodes tr2" "sameShape tr2 tr3" by simp_all
  have w3: "writersIn {..<Suc node} tr3"
    using w2 p3(2) by (auto simp: writersIn_def)
  from updateWrites_props [OF s4 w3]
  have p4: "writersIn {..<Suc node} tr4" "dag tr4 = dag tr3" "sameShape tr3 tr4" by simp_all
  have sh: "sameShape tr1 tr4"
    using p2(3) p3(3) p4(3) sameShape_trans by blast
  have l4: "length (dag tr4) = Suc node"
    using sameShape_length [OF sh] by (simp add: tr1_def node_def)
  have d4: "dagOK (dag tr4)" using p3(1) p4(2) by simp
  have w4: "writersIn {..<length (dag tr4)} tr4" using p4(1) l4 by simp
  from Cons.IH [OF s5 d4 w4] sh show ?case
    by (simp add: sameShape_def tr1_def newScheduleDAGNode_def)
qed

lemma backwardPass_props:
  "backwardPass ctx policy (rev [0..<k]) tr = Some tr' \<Longrightarrow> dagOK (dag tr) \<Longrightarrow>
   k \<le> length (dag tr) \<Longrightarrow> writersIn {k..<length (dag tr)} tr \<Longrightarrow>
   dagOK (dag tr') \<and> sameShape tr tr'"
proof (induction k arbitrary: tr)
  case 0
  then show ?case by simp
next
  case (Suc k)
  from Suc.prems(1) obtain rs tr1 tr2 where
    s1: "addDependencies_index tr rs k = Some tr1"
    and s2: "updateWrites ctx policy tr1 k = Some tr2"
    and s3: "backwardPass ctx policy (rev [0..<k]) tr2 = Some tr'"
    by (auto split: option.splits)
  have above: "\<forall>j \<in> {Suc k..<length (dag tr)}. k < j \<and> j < length (dag tr)" by simp
  from addDependencies_index_props [OF s1 Suc.prems(2,4) above]
  have p1: "dagOK (dag tr1)" "nodes tr1 = nodes tr" "sameShape tr tr1" by simp_all
  have l1: "length (dag tr1) = length (dag tr)" using sameShape_length [OF p1(3)] .
  have w1: "writersIn {k..<length (dag tr)} tr1"
    using Suc.prems(4) p1(2) by (auto simp: writersIn_def)
  have k: "k \<in> {k..<length (dag tr)}" using Suc.prems(3) by simp
  from updateWrites_props [OF s2 w1 k]
  have p2: "writersIn {k..<length (dag tr)} tr2" "dag tr2 = dag tr1" "sameShape tr1 tr2"
    by simp_all
  have l2: "length (dag tr2) = length (dag tr)" using p2(2) l1 by simp
  have "dagOK (dag tr2)" using p1(1) p2(2) by simp
  moreover have "k \<le> length (dag tr2)" using Suc.prems(3) l2 by simp
  moreover have "writersIn {k..<length (dag tr2)} tr2" using p2(1) l2 by simp
  ultimately have "dagOK (dag tr') \<and> sameShape tr2 tr'"
    using Suc.IH [OF s3] by blast
  with p1(3) p2(3) show ?case using sameShape_trans by blast
qed

text \<open>A sequence of dependencies, each of a later node on an earlier one.\<close>

lemma foldl_addDependency:
  "dagOK dg \<Longrightarrow> \<forall>p \<in> set ps. snd p < fst p \<and> fst p < length dg \<Longrightarrow>
   dagOK (foldl (\<lambda>d p. addDependency (Some (fst p)) (Some (snd p)) d) dg ps)
   \<and> length (foldl (\<lambda>d p. addDependency (Some (fst p)) (Some (snd p)) d) dg ps) = length dg
   \<and> map insn (foldl (\<lambda>d p. addDependency (Some (fst p)) (Some (snd p)) d) dg ps) = map insn dg
   \<and> (\<forall>i < length dg.
        children (foldl (\<lambda>d p. addDependency (Some (fst p)) (Some (snd p)) d) dg ps ! i)
          = children (dg ! i) @ map fst (filter (\<lambda>p. snd p = i) ps))"
proof (induction ps arbitrary: dg)
  case Nil
  then show ?case by simp
next
  case (Cons p ps)
  let ?dg1 = "addDependency (Some (fst p)) (Some (snd p)) dg"
  from Cons.prems(2) have p: "snd p < fst p" "fst p < length dg" by simp_all
  have d1: "dagOK ?dg1" using dagOK_addDependency [OF Cons.prems(1) p] .
  have r1: "\<forall>q \<in> set ps. snd q < fst q \<and> fst q < length ?dg1"
    using Cons.prems(2) by simp
  have ef: "edgesForward dg" using Cons.prems(1) by (simp add: dagOK_def)
  from Cons.IH [OF d1 r1] show ?case
    by (simp add: children_addDependency [OF ef p])
qed

lemma makeBarrier_foldl:
  "makeBarrier b n dg =
     foldl (\<lambda>d p. addDependency (Some (fst p)) (Some (snd p)) d) dg
       (map (\<lambda>i. (b, i)) [0..<b] @ map (\<lambda>j. (j, b)) [b + 1..<n])"
  by (simp add: makeBarrier_def Let_def foldl_map)

text \<open>The edges that make node \<open>b\<close> of \<open>n\<close> a barrier.\<close>

definition barrierEdges :: "nat \<Rightarrow> ScheduleDAGNode list \<Rightarrow> bool" where
  "barrierEdges b dg =
     ((\<forall>i < b. b \<in> set (children (dg ! i)))
      \<and> (\<forall>j. b < j \<and> j < length dg \<longrightarrow> j \<in> set (children (dg ! b))))"

lemma makeBarrier_props:
  assumes "dagOK dg" "b < length dg"
  shows "dagOK (makeBarrier b (length dg) dg)
         \<and> length (makeBarrier b (length dg) dg) = length dg
         \<and> map insn (makeBarrier b (length dg) dg) = map insn dg
         \<and> (\<forall>i < length dg. set (children (dg ! i))
                \<subseteq> set (children (makeBarrier b (length dg) dg ! i)))
         \<and> barrierEdges b (makeBarrier b (length dg) dg)"
proof -
  let ?ps = "map (\<lambda>i. (b, i)) [0..<b] @ map (\<lambda>j. (j, b)) [b + 1..<length dg]"
  have ps: "\<forall>p \<in> set ?ps. snd p < fst p \<and> fst p < length dg"
    using assms(2) by auto
  note f = foldl_addDependency [OF assms(1) ps, folded makeBarrier_foldl]
  have ch: "children (makeBarrier b (length dg) dg ! i)
              = children (dg ! i) @ map fst (filter (\<lambda>p. snd p = i) ?ps)"
    if "i < length dg" for i
    using f that by blast
  have "b \<in> set (children (makeBarrier b (length dg) dg ! i))" if "i < b" for i
  proof -
    have "(b, i) \<in> set (filter (\<lambda>p. snd p = i) ?ps)" using that by simp
    then have "b \<in> set (map fst (filter (\<lambda>p. snd p = i) ?ps))" by force
    then show ?thesis using ch [of i] that assms(2) by simp
  qed
  moreover have "j \<in> set (children (makeBarrier b (length dg) dg ! b))"
    if "b < j" "j < length dg" for j
  proof -
    have "(j, b) \<in> set (filter (\<lambda>p. snd p = b) ?ps)" using that by simp
    then have "j \<in> set (map fst (filter (\<lambda>p. snd p = b) ?ps))" by force
    then show ?thesis using ch [of b] assms(2) by simp
  qed
  ultimately have "barrierEdges b (makeBarrier b (length dg) dg)"
    using f by (simp add: barrierEdges_def)
  moreover have "\<forall>i < length dg. set (children (dg ! i))
                \<subseteq> set (children (makeBarrier b (length dg) dg ! i))"
    using ch by simp
  ultimately show ?thesis using f by simp
qed

lemma barrierEdges_mono:
  assumes "barrierEdges b dg" "length dg' = length dg" "b < length dg"
    and "\<forall>i < length dg. set (children (dg ! i)) \<subseteq> set (children (dg' ! i))"
  shows "barrierEdges b dg'"
  unfolding barrierEdges_def
proof (intro conjI allI impI)
  fix i assume "i < b"
  with assms(1) have "b \<in> set (children (dg ! i))" by (simp add: barrierEdges_def)
  moreover have "i < length dg" using \<open>i < b\<close> assms(3) by simp
  ultimately show "b \<in> set (children (dg' ! i))" using assms(4) by blast
next
  fix j assume "b < j \<and> j < length dg'"
  with assms(1,2) have "j \<in> set (children (dg ! b))" by (simp add: barrierEdges_def)
  then show "j \<in> set (children (dg' ! b))" using assms(3,4) by blast
qed

lemma barrierPass_steps:
  "dagOK dg \<Longrightarrow> m \<le> length dg \<Longrightarrow>
   dagOK (foldl (\<lambda>d insnID. if isBarrierInsn (insn (d ! insnID))
                   then makeBarrier insnID (length dg) d else d) dg [0..<m])
   \<and> length (foldl (\<lambda>d insnID. if isBarrierInsn (insn (d ! insnID))
                   then makeBarrier insnID (length dg) d else d) dg [0..<m]) = length dg
   \<and> map insn (foldl (\<lambda>d insnID. if isBarrierInsn (insn (d ! insnID))
                   then makeBarrier insnID (length dg) d else d) dg [0..<m]) = map insn dg
   \<and> (\<forall>b < m. isBarrierInsn (insn (dg ! b)) \<longrightarrow>
        barrierEdges b (foldl (\<lambda>d insnID. if isBarrierInsn (insn (d ! insnID))
                   then makeBarrier insnID (length dg) d else d) dg [0..<m]))"
proof (induction m)
  case 0
  then show ?case by simp
next
  case (Suc m)
  define d where "d = foldl (\<lambda>d insnID. if isBarrierInsn (insn (d ! insnID))
                   then makeBarrier insnID (length dg) d else d) dg [0..<m]"
  define d' where "d' = (if isBarrierInsn (insn (d ! m)) then makeBarrier m (length dg) d else d)"
  have step: "foldl (\<lambda>d insnID. if isBarrierInsn (insn (d ! insnID))
                   then makeBarrier insnID (length dg) d else d) dg [0..<Suc m] = d'"
    by (simp add: d_def d'_def)
  from Suc have m: "m < length dg" and ih: "dagOK d" "length d = length dg"
    "map insn d = map insn dg"
    "\<forall>b < m. isBarrierInsn (insn (dg ! b)) \<longrightarrow> barrierEdges b d"
    by (simp_all add: d_def)
  have im: "insn (d ! m) = insn (dg ! m)"
    using ih(2,3) m by (metis nth_map)
  have md: "m < length d" using m ih(2) by simp
  note mb = makeBarrier_props [OF ih(1) md, unfolded ih(2)]
  have p: "dagOK d'" "length d' = length dg" "map insn d' = map insn dg"
    "\<forall>i < length d. set (children (d ! i)) \<subseteq> set (children (d' ! i))"
    using mb ih by (simp_all add: d'_def)
  have "barrierEdges b d'" if b: "b < Suc m" "isBarrierInsn (insn (dg ! b))" for b
  proof (cases "b = m")
    case True
    with b(2) im mb show ?thesis by (simp add: d'_def)
  next
    case False
    with b have "barrierEdges b d" using ih(4) by simp
    moreover have "b < length d" using b(1) md by simp
    ultimately show ?thesis using barrierEdges_mono p(2,4) ih(2) by metis
  qed
  with p show ?case unfolding step by blast
qed

lemma barrierPass_props:
  assumes "dagOK dg"
  shows "dagOK (barrierPass (length dg) dg)"
    and "length (barrierPass (length dg) dg) = length dg"
    and "map insn (barrierPass (length dg) dg) = map insn dg"
    and "b < length dg \<Longrightarrow> isBarrierInsn (insn (dg ! b)) \<Longrightarrow>
         barrierEdges b (barrierPass (length dg) dg)"
  using barrierPass_steps [OF assms, of "length dg"]
  by (simp_all add: barrierPass_def)

text \<open>What \<open>buildDAG\<close> returns.\<close>

lemma dagOK_Nil [simp]: "dagOK []"
  by (simp add: dagOK_def edgesForward_def refNumsOK_def)

lemma buildDAG_props:
  assumes "buildDAG ctx policy s bb = Some (n, s1)"
  shows "n = length bb" and "dagOK (dag (tracker s1))"
    and "map insn (dag (tracker s1)) = bb"
    and "ready s1 = filter (\<lambda>insnID. refNum (dag (tracker s1) ! insnID) = 0) [0..<n]"
    and "active s1 = []"
    and "b < length bb \<Longrightarrow> isBarrierInsn (bb ! b) \<Longrightarrow> barrierEdges b (dag (tracker s1))"
proof -
  from assms obtain tr1 tr2 where
    f: "forwardPass ctx policy bb ((clear (tracker s))\<lparr>dag := []\<rparr>) = Some tr1"
    and bw: "backwardPass ctx policy (rev [0..<length (dag tr1)]) (clear tr1) = Some tr2"
    and n: "n = length (dag tr1)"
    and s1: "s1 = \<lparr>tracker = tr2\<lparr>dag := barrierPass n (dag tr2)\<rparr>,
                   ready = filter (\<lambda>insnID. refNum (barrierPass n (dag tr2) ! insnID) = 0) [0..<n],
                   active = []\<rparr>"
    by (auto simp: buildDAG_def Let_def split: option.splits)
  have w0: "writersIn {..<length (dag ((clear (tracker s))\<lparr>dag := []\<rparr>))} ((clear (tracker s))\<lparr>dag := []\<rparr>)"
    by (simp add: writersIn_def clear_def)
  from forwardPass_props [OF f _ w0]
  have p1: "dagOK (dag tr1)" "map insn (dag tr1) = bb" by simp_all
  have c1: "dag (clear tr1) = dag tr1" by (simp add: clear_def)
  from backwardPass_props [OF bw, unfolded c1, OF p1(1)]
  have p2: "dagOK (dag tr2)" "sameShape (clear tr1) tr2" by simp_all
  have i2: "map insn (dag tr2) = bb" using p2(2) p1(2) c1 by (simp add: sameShape_def)
  have l2: "length (dag tr2) = n" using sameShape_length [OF p2(2)] c1 n by simp
  show "n = length bb" using n p1(2) by (metis length_map)
  note bp = barrierPass_props [OF p2(1), unfolded l2]
  show "dagOK (dag (tracker s1))" using bp(1) by (simp add: s1)
  show "map insn (dag (tracker s1)) = bb" using bp(3) i2 by (simp add: s1)
  show "ready s1 = filter (\<lambda>insnID. refNum (dag (tracker s1) ! insnID) = 0) [0..<n]"
    by (simp add: s1)
  show "active s1 = []" by (simp add: s1)
  show "barrierEdges b (dag (tracker s1))" if "b < length bb" "isBarrierInsn (bb ! b)"
  proof -
    have "b < n" using that(1) \<open>n = length bb\<close> by simp
    moreover have "insn (dag tr2 ! b) = bb ! b"
      using i2 that(1) by (metis length_map nth_map)
    ultimately show ?thesis using bp(4) that(2) by (simp add: s1)
  qed
qed

subsection \<open>A block for the examples\<close>

text \<open>
  A label, an addition and a multiplication that do not depend on one another, a store
  of the sum, and a predicated jump. The registers are virtual registers.
\<close>

definition exampleState :: SelectionState where
  "exampleState = \<lparr>predicate = 0, physicalFlag = False, flag = 0, subFlag = 0, flagIndex = 0,
      accWrEnable = False\<rparr>"

definition exampleInsn :: "SelectionOpcode \<Rightarrow> nat list \<Rightarrow> nat list \<Rightarrow> SelectionInstruction" where
  "exampleInsn opc srcs dsts =
     \<lparr>opcode = opc, state = exampleState, src = map grf srcs, dst = map grf dsts,
      extra_function = 0, isRead = False, isWrite = False, isBranch = False, isLabel = False\<rparr>"

definition exampleBlock :: "SelectionInstruction list" where
  "exampleBlock =
     [(exampleInsn SEL_OP_LABEL [] [])\<lparr>isLabel := True\<rparr>,
      exampleInsn SEL_OP_ADD [0, 1] [2],
      exampleInsn SEL_OP_MUL [0, 1] [5],
      (exampleInsn SEL_OP_UNTYPED_WRITE [3, 2] [])\<lparr>isWrite := True\<rparr>,
      (exampleInsn SEL_OP_JMPI [] [])\<lparr>isBranch := True,
         state := exampleState\<lparr>predicate := 1, flagIndex := 4\<rparr>\<rparr>]"

definition exampleScheduler :: "SchedulePolicy \<Rightarrow> SelectionScheduler" where
  "exampleScheduler policy = the (newSelectionScheduler (exampleGenContext 16) policy)"

lemma exampleBlock_buildDAG:
  "\<exists>s1. buildDAG (exampleGenContext 16) policy (exampleScheduler policy) exampleBlock = Some (5, s1)"
proof -
  have "map_option fst (buildDAG (exampleGenContext 16) PRE_ALLOC (exampleScheduler PRE_ALLOC) exampleBlock) = Some 5"
       "map_option fst (buildDAG (exampleGenContext 16) POST_ALLOC (exampleScheduler POST_ALLOC) exampleBlock) = Some 5"
    by code_simp+
  then show ?thesis by (cases policy) auto
qed

subsection \<open>The two policies\<close>

text \<open>
  C4. In an iteration of the loop of \<open>scheduleDAG\<close> in which the ready list is not
  empty after the retirement: before the allocation the last element of the ready list
  (the one pushed last) is removed from it and appended to the block, the clock stays, and
  the retirement cycle of the instruction is the clock; after the allocation the first
  element of the ready list (the oldest) is removed and appended, the clock advances by
  the throughput of the instruction, and the retirement cycle is the advanced clock plus
  the latency of the instruction.
\<close>

theorem C4_schedule_policies:
  assumes "retire (loopActive st) (cycle st) (loopDag st) (loopReady st) = (act, dg, rdy)"
    and "rdy \<noteq> []" and "set rdy \<subseteq> {..<length dg}"
  shows "(policy = PRE_ALLOC \<longrightarrow>
            appended (scheduleStep ctx policy st) = appended st @ [last rdy]
          \<and> loopReady (scheduleStep ctx policy st) = butlast rdy
          \<and> loopActive (scheduleStep ctx policy st) = act @ [last rdy]
          \<and> cycle (scheduleStep ctx policy st) = cycle st
          \<and> retiredCycle (loopDag (scheduleStep ctx policy st) ! last rdy) = cycle st)
       \<and> (policy = POST_ALLOC \<longrightarrow>
            appended (scheduleStep ctx policy st) = appended st @ [hd rdy]
          \<and> loopReady (scheduleStep ctx policy st) = tl rdy
          \<and> loopActive (scheduleStep ctx policy st) = act @ [hd rdy]
          \<and> cycle (scheduleStep ctx policy st)
              = cycle st + getThroughputGen7 ctx (opcode (insn (dg ! hd rdy))) (ctxSimdWidth ctx = 8)
          \<and> retiredCycle (loopDag (scheduleStep ctx policy st) ! hd rdy)
              = cycle (scheduleStep ctx policy st) + getLatencyGen7 ctx (opcode (insn (dg ! hd rdy))))"
proof -
  from assms(2,3) have "hd rdy < length dg" "last rdy < length dg"
    by (auto simp: subset_iff)
  then show ?thesis
    using assms(1,2) by (cases policy) (simp_all add: scheduleStep_def Let_def)
qed

text \<open>
  C4, witness: the addition and the multiplication of the example block are ready, in
  this order, at cycle 7. Before the allocation the multiplication is issued and the
  clock stays at 7; after the allocation, at SIMD16, the addition is issued, the clock
  is 11 and the addition retires at cycle 21.
\<close>

definition exampleLoop :: ScheduleLoop where
  "exampleLoop =
     \<lparr>loopDag = map newScheduleDAGNode exampleBlock, loopReady = [1, 2], loopActive = [],
      cycle = 7, insnNum = 4, appended = [0]\<rparr>"

theorem C4_schedule_policies_witness:
  "appended (scheduleStep (exampleGenContext 16) PRE_ALLOC exampleLoop) = [0, 2]
   \<and> loopReady (scheduleStep (exampleGenContext 16) PRE_ALLOC exampleLoop) = [1]
   \<and> cycle (scheduleStep (exampleGenContext 16) PRE_ALLOC exampleLoop) = 7
   \<and> retiredCycle (loopDag (scheduleStep (exampleGenContext 16) PRE_ALLOC exampleLoop) ! 2) = 7
   \<and> appended (scheduleStep (exampleGenContext 16) POST_ALLOC exampleLoop) = [0, 1]
   \<and> loopReady (scheduleStep (exampleGenContext 16) POST_ALLOC exampleLoop) = [2]
   \<and> cycle (scheduleStep (exampleGenContext 16) POST_ALLOC exampleLoop) = 11
   \<and> retiredCycle (loopDag (scheduleStep (exampleGenContext 16) POST_ALLOC exampleLoop) ! 1) = 21"
proof -
  have r: "retire (loopActive exampleLoop) (cycle exampleLoop) (loopDag exampleLoop)
             (loopReady exampleLoop) = ([], loopDag exampleLoop, [1, 2])"
    by (simp add: exampleLoop_def)
  have l: "set [1, 2] \<subseteq> {..<length (loopDag exampleLoop)}"
    by (simp add: exampleLoop_def exampleBlock_def)
  have e: "opcode (insn (loopDag exampleLoop ! Suc 0)) = SEL_OP_ADD"
    "cycle exampleLoop = 7" "appended exampleLoop = [0]"
    "getThroughputGen7 (exampleGenContext 16) SEL_OP_ADD (ctxSimdWidth (exampleGenContext 16) = 8) = 4"
    "getLatencyGen7 (exampleGenContext 16) SEL_OP_ADD = 10"
    by (simp_all add: exampleLoop_def exampleBlock_def exampleInsn_def newScheduleDAGNode_def
          exampleGenContext_def)
  from C4_schedule_policies [OF r _ l, of PRE_ALLOC "exampleGenContext 16"]
       C4_schedule_policies [OF r _ l, of POST_ALLOC "exampleGenContext 16"]
  show ?thesis
    by (simp add: e)
qed

subsection \<open>The invariants of the scheduling loop\<close>

text \<open>The number of edges of a DAG.\<close>

definition edgeNum :: "ScheduleDAGNode list \<Rightarrow> nat" where
  "edgeNum dg = sum_list (map (\<lambda>nd. length (children nd)) dg)"

lemma size_allChildren: "size (allChildren dg) = edgeNum dg"
  by (induction dg) (simp_all add: allChildren_def edgeNum_def)

text \<open>
  The edges of the DAG that leave a node outside \<open>R\<close>, as the multiset of their targets;
  \<open>R\<close> are the retired nodes.
\<close>

definition pend :: "ScheduleDAGNode list \<Rightarrow> nat set \<Rightarrow> nat multiset" where
  "pend dg0 R = (\<Sum>i \<in> {..<length dg0} - R. mset (children (dg0 ! i)))"

lemma pend_empty: "pend dg0 {} = allChildren dg0"
proof -
  have "allChildren dg0 = (\<Sum>i \<in> {0..<length dg0}. map (\<lambda>nd. mset (children nd)) dg0 ! i)"
    unfolding allChildren_def using sum_list_sum_nth [of "map (\<lambda>nd. mset (children nd)) dg0"]
    by simp
  also have "\<dots> = (\<Sum>i \<in> {0..<length dg0}. mset (children (dg0 ! i)))"
    by (rule sum.cong) simp_all
  finally show ?thesis by (simp add: pend_def lessThan_atLeast0)
qed

lemma pend_insert:
  assumes "i < length dg0" "i \<notin> R"
  shows "pend dg0 R = pend dg0 (insert i R) + mset (children (dg0 ! i))"
proof -
  have "i \<in> {..<length dg0} - R" using assms by simp
  from sum.remove [OF _ this, of "\<lambda>i. mset (children (dg0 ! i))"]
  have "pend dg0 R = mset (children (dg0 ! i))
          + (\<Sum>k \<in> {..<length dg0} - R - {i}. mset (children (dg0 ! k)))"
    by (simp add: pend_def)
  moreover have "{..<length dg0} - R - {i} = {..<length dg0} - insert i R" by blast
  ultimately show ?thesis by (simp add: pend_def)
qed

lemma pend_split:
  "allChildren dg0 = (\<Sum>i \<in> {..<length dg0} \<inter> R. mset (children (dg0 ! i))) + pend dg0 R"
  using sum.Int_Diff [of "{..<length dg0}" "\<lambda>i. mset (children (dg0 ! i))" R]
  by (simp add: pend_empty [symmetric] pend_def)

lemma count_pend_le: "count (pend dg0 R) c \<le> edgeNum dg0"
proof -
  have "count (pend dg0 R) c \<le> count (allChildren dg0) c"
    using pend_split [of dg0 R] by simp
  also have "\<dots> \<le> edgeNum dg0"
    using count_le_size [of "allChildren dg0" c] by (simp add: size_allChildren)
  finally show ?thesis .
qed

lemma in_pend:
  "c \<in># pend dg0 R \<longleftrightarrow> (\<exists>i < length dg0. i \<notin> R \<and> c \<in> set (children (dg0 ! i)))"
  by (auto simp: pend_def set_mset_sum)

text \<open>
  The bookkeeping of the loop with respect to a multiset \<open>M\<close> of pending edges and the
  set \<open>A\<close> of the nodes issued so far: \<open>refNum\<close> counts the pending edges into a node,
  and a node is ready or issued exactly when no pending edge enters it.
\<close>

definition relInv ::
  "nat \<Rightarrow> nat set \<Rightarrow> nat multiset \<Rightarrow> ScheduleDAGNode list \<Rightarrow> nat list \<Rightarrow> bool" where
  "relInv n A M dg rdy =
     (length dg = n
      \<and> (\<forall>c < n. refNum (dg ! c) = of_nat (count M c))
      \<and> (\<forall>c < n. (c \<in> set rdy \<union> A) = (count M c = 0))
      \<and> distinct rdy \<and> set rdy \<subseteq> {..<n} \<and> set rdy \<inter> A = {})"

lemma word32_of_nat_eq_0:
  "k < 2 ^ 32 \<Longrightarrow> (of_nat k = (0 :: 32 word)) = (k = 0)"
  using of_nat_neq_0 [of k, where 'a = 32] by auto

lemma release_step:
  assumes inv: "relInv n A (M + {#c#}) dg rdy" and c: "c < n"
    and bound: "count (M + {#c#}) c < 2 ^ 32"
  shows "relInv n A M (dg[c := (dg ! c)\<lparr>refNum := refNum (dg ! c) - 1\<rparr>])
           (if refNum (dg[c := (dg ! c)\<lparr>refNum := refNum (dg ! c) - 1\<rparr>] ! c) = 0
            then rdy @ [c] else rdy)"
proof -
  let ?dg1 = "dg[c := (dg ! c)\<lparr>refNum := refNum (dg ! c) - 1\<rparr>]"
  from inv have len: "length dg = n"
    and ref: "\<And>k. k < n \<Longrightarrow> refNum (dg ! k) = of_nat (count (M + {#c#}) k)"
    and mem: "\<And>k. k < n \<Longrightarrow> (k \<in> set rdy \<union> A) = (count (M + {#c#}) k = 0)"
    and dis: "distinct rdy" "set rdy \<subseteq> {..<n}" "set rdy \<inter> A = {}"
    by (simp_all add: relInv_def)
  have cnot: "c \<notin> set rdy" "c \<notin> A" using mem [OF c] by simp_all
  have refc: "refNum (?dg1 ! c) = of_nat (count M c)"
    using ref [OF c] c len by simp
  have ref1: "refNum (?dg1 ! k) = of_nat (count M k)" if "k < n" for k
  proof (cases "k = c")
    case True
    then show ?thesis using refc by simp
  next
    case False
    then show ?thesis using ref [OF that] by simp
  qed
  have zero: "(refNum (?dg1 ! c) = 0) = (count M c = 0)"
    using bound by (simp add: refc word32_of_nat_eq_0)
  show ?thesis
  proof (cases "count M c = 0")
    case True
    have "(k \<in> set (rdy @ [c]) \<union> A) = (count M k = 0)" if "k < n" for k
    proof (cases "k = c")
      case True
      then show ?thesis using \<open>count M c = 0\<close> by simp
    next
      case False
      then show ?thesis using mem [OF that] by simp
    qed
    moreover from True zero
    have "refNum (dg[c := (dg ! c)\<lparr>refNum := refNum (dg ! c) - 1\<rparr>] ! c) = 0" by simp
    ultimately show ?thesis
      using len ref1 dis cnot c by (simp add: relInv_def)
  next
    case False
    have "(k \<in> set rdy \<union> A) = (count M k = 0)" if "k < n" for k
    proof (cases "k = c")
      case True
      then show ?thesis using False cnot by simp
    next
      case False
      then show ?thesis using mem [OF that] by simp
    qed
    moreover from False zero
    have "refNum (dg[c := (dg ! c)\<lparr>refNum := refNum (dg ! c) - 1\<rparr>] ! c) \<noteq> 0" by simp
    ultimately show ?thesis
      using len ref1 dis by (simp add: relInv_def)
  qed
qed

text \<open>A step that leaves the instructions, the children and the retirement cycles alone.\<close>

definition sameNodes :: "ScheduleDAGNode list \<Rightarrow> ScheduleDAGNode list \<Rightarrow> bool" where
  "sameNodes dg dg' =
     (\<forall>i. insn (dg' ! i) = insn (dg ! i) \<and> children (dg' ! i) = children (dg ! i)
          \<and> retiredCycle (dg' ! i) = retiredCycle (dg ! i))"

lemma sameNodes_refl [simp]: "sameNodes dg dg"
  by (simp add: sameNodes_def)

lemma sameNodes_trans: "sameNodes a b \<Longrightarrow> sameNodes b c \<Longrightarrow> sameNodes a c"
  by (simp add: sameNodes_def)

lemma sameNodes_refNum_update [simp]: "sameNodes dg (dg[c := (dg ! c)\<lparr>refNum := r\<rparr>])"
  by (simp add: sameNodes_def nth_upd)

lemma releaseChildren_props:
  "releaseChildren cs dg rdy = (kept, dg', rdy') \<Longrightarrow> relInv n A (M + mset cs) dg rdy \<Longrightarrow>
   set cs \<subseteq> {..<n} \<Longrightarrow> \<forall>c. count (M + mset cs) c < 2 ^ 32 \<Longrightarrow>
   relInv n A M dg' rdy' \<and> sameNodes dg dg'"
proof (induction cs arbitrary: dg rdy kept)
  case Nil
  then show ?case by simp
next
  case (Cons c cs)
  define dg1 where "dg1 = dg[c := (dg ! c)\<lparr>refNum := refNum (dg ! c) - 1\<rparr>]"
  define rdy1 where "rdy1 = (if refNum (dg1 ! c) = 0 then rdy @ [c] else rdy)"
  from Cons.prems(1) obtain kept1 where r: "releaseChildren cs dg1 rdy1 = (kept1, dg', rdy')"
    by (auto simp: Let_def dg1_def rdy1_def split: if_splits prod.splits)
  have i0: "relInv n A ((M + mset cs) + {#c#}) dg rdy"
    using Cons.prems(2) by (simp add: add.commute add.left_commute)
  have c: "c < n" using Cons.prems(3) by simp
  have b0: "count ((M + mset cs) + {#c#}) c < 2 ^ 32"
    using Cons.prems(4) [rule_format, of c] by simp
  have i1: "relInv n A (M + mset cs) dg1 rdy1"
    using release_step [OF i0 c b0] by (simp add: dg1_def rdy1_def)
  have b1: "\<forall>k. count (M + mset cs) k < 2 ^ 32"
  proof
    fix k
    have "count (M + mset cs) k \<le> count (M + mset (c # cs)) k" by simp
    with Cons.prems(4) [rule_format, of k] show "count (M + mset cs) k < 2 ^ 32" by simp
  qed
  have s: "set cs \<subseteq> {..<n}" using Cons.prems(3) by simp
  from Cons.IH [OF r i1 s b1] have "relInv n A M dg' rdy'" "sameNodes dg1 dg'" by simp_all
  moreover have "sameNodes dg dg1" by (simp add: dg1_def)
  ultimately show ?case using sameNodes_trans by blast
qed

lemma relInv_cong:
  "relInv n A M dg rdy \<Longrightarrow> length dg' = length dg \<Longrightarrow>
   \<forall>i. refNum (dg' ! i) = refNum (dg ! i) \<Longrightarrow> relInv n A M dg' rdy"
  by (simp add: relInv_def)

text \<open>
  The invariant of the retirement with respect to the DAG \<open>dg0\<close> that \<open>buildDAG\<close> left,
  the issued nodes \<open>A\<close> and the retired nodes \<open>R\<close>: the pending edges are those that
  leave a node not yet retired, and such a node still has all its children.
\<close>

definition retInv ::
  "ScheduleDAGNode list \<Rightarrow> nat set \<Rightarrow> nat set \<Rightarrow> ScheduleDAGNode list \<Rightarrow> nat list \<Rightarrow> bool" where
  "retInv dg0 A R dg rdy =
     (relInv (length dg0) A (pend dg0 R) dg rdy
      \<and> (\<forall>i < length dg0. i \<notin> R \<longrightarrow> children (dg ! i) = children (dg0 ! i)))"

lemma retire_props:
  "retire act cyc dg rdy = (act', dg', rdy') \<Longrightarrow> retInv dg0 A R dg rdy \<Longrightarrow> distinct act \<Longrightarrow>
   set act \<subseteq> {..<length dg0} \<Longrightarrow> set act \<inter> R = {} \<Longrightarrow> edgesForward dg0 \<Longrightarrow>
   edgeNum dg0 < 2 ^ 32 \<Longrightarrow>
   act' = filter (\<lambda>a. \<not> retiredCycle (dg ! a) \<le> cyc) act
   \<and> retInv dg0 A (R \<union> (set act - set act')) dg' rdy'
   \<and> (\<forall>i. retiredCycle (dg' ! i) = retiredCycle (dg ! i))"
proof (induction act arbitrary: dg rdy R act')
  case Nil
  then show ?case by simp
next
  case (Cons a rest)
  let ?n = "length dg0"
  from Cons.prems(3) have anot: "a \<notin> set rest" and drest: "distinct rest" by simp_all
  from Cons.prems(4) have a: "a < ?n" and srest: "set rest \<subseteq> {..<?n}" by simp_all
  from Cons.prems(5) have aR: "a \<notin> R" and rR: "set rest \<inter> R = {}" by simp_all
  from Cons.prems(2) have rel: "relInv ?n A (pend dg0 R) dg rdy"
    and chs: "\<And>i. i < ?n \<Longrightarrow> i \<notin> R \<Longrightarrow> children (dg ! i) = children (dg0 ! i)"
    by (simp_all add: retInv_def)
  show ?case
  proof (cases "retiredCycle (dg ! a) \<le> cyc")
    case True
    obtain kept dg1 rdy1 where
      rc: "releaseChildren (children (dg ! a)) dg rdy = (kept, dg1, rdy1)"
      by (metis prod_cases3)
    define dg2 where "dg2 = dg1[a := (dg1 ! a)\<lparr>children := kept\<rparr>]"
    from Cons.prems(1) True rc have r: "retire rest cyc dg2 rdy1 = (act', dg', rdy')"
      by (simp add: dg2_def)
    have ch: "children (dg ! a) = children (dg0 ! a)" using chs [OF a aR] .
    have rel0: "relInv ?n A (pend dg0 (insert a R) + mset (children (dg ! a))) dg rdy"
      using rel pend_insert [OF a aR] ch by simp
    have sub: "set (children (dg ! a)) \<subseteq> {..<?n}"
      using Cons.prems(6) a unfolding ch edgesForward_def by blast
    have bound: "\<forall>c. count (pend dg0 (insert a R) + mset (children (dg ! a))) c < 2 ^ 32"
    proof
      fix c
      have "count (pend dg0 R) c < 2 ^ 32"
        using count_pend_le [of dg0 R c] Cons.prems(7) by simp
      then show "count (pend dg0 (insert a R) + mset (children (dg ! a))) c < 2 ^ 32"
        using pend_insert [OF a aR] ch by simp
    qed
    from releaseChildren_props [OF rc rel0 sub bound]
    have rel1: "relInv ?n A (pend dg0 (insert a R)) dg1 rdy1" and sn: "sameNodes dg dg1"
      by simp_all
    have rel2: "relInv ?n A (pend dg0 (insert a R)) dg2 rdy1"
      using rel1 by (rule relInv_cong) (simp_all add: dg2_def nth_upd)
    have ch2: "children (dg2 ! i) = children (dg0 ! i)" if "i < ?n" "i \<notin> insert a R" for i
    proof -
      from that have "i \<noteq> a" "i \<notin> R" by simp_all
      then have "children (dg2 ! i) = children (dg ! i)"
        using sn by (simp add: dg2_def sameNodes_def)
      then show ?thesis using chs [OF that(1) \<open>i \<notin> R\<close>] by simp
    qed
    have inv2: "retInv dg0 A (insert a R) dg2 rdy1"
      using rel2 ch2 by (simp add: retInv_def)
    have rR2: "set rest \<inter> insert a R = {}" using rR anot by simp
    from Cons.IH [OF r inv2 drest srest rR2 Cons.prems(6,7)]
    have ih: "act' = filter (\<lambda>x. \<not> retiredCycle (dg2 ! x) \<le> cyc) rest"
      "retInv dg0 A (insert a R \<union> (set rest - set act')) dg' rdy'"
      "\<forall>i. retiredCycle (dg' ! i) = retiredCycle (dg2 ! i)"
      by blast+
    have rc2: "retiredCycle (dg2 ! i) = retiredCycle (dg ! i)" for i
      using sn by (simp add: dg2_def nth_upd sameNodes_def)
    have act': "act' = filter (\<lambda>x. \<not> retiredCycle (dg ! x) \<le> cyc) (a # rest)"
      using ih(1) True by (simp add: rc2)
    have "a \<notin> set act'" using ih(1) anot by simp
    then have "insert a R \<union> (set rest - set act') = R \<union> (set (a # rest) - set act')"
      by auto
    with ih(2,3) act' show ?thesis by (simp add: rc2)
  next
    case False
    from Cons.prems(1) False obtain rest' where
      r: "retire rest cyc dg rdy = (rest', dg', rdy')" and e: "act' = a # rest'"
      by (auto split: prod.splits)
    from Cons.IH [OF r Cons.prems(2) drest srest rR Cons.prems(6,7)]
    have ih: "rest' = filter (\<lambda>x. \<not> retiredCycle (dg ! x) \<le> cyc) rest"
      "retInv dg0 A (R \<union> (set rest - set rest')) dg' rdy'"
      "\<forall>i. retiredCycle (dg' ! i) = retiredCycle (dg ! i)"
      by blast+
    have "R \<union> (set rest - set rest') = R \<union> (set (a # rest) - set (a # rest'))"
      using anot by auto
    with ih e False show ?thesis by simp
  qed
qed

lemma retire_none_due:
  "\<forall>a \<in> set act. \<not> retiredCycle (dg ! a) \<le> cyc \<Longrightarrow> retire act cyc dg rdy = (act, dg, rdy)"
  by (induction act) simp_all

text \<open>
  The invariant of the loop of \<open>scheduleDAG\<close> with respect to the DAG \<open>dg0\<close> that
  \<open>buildDAG\<close> left. The issued nodes are the appended ones, the retired nodes are the
  issued nodes that have left the active list. Every node that an appended node depends
  on has been appended before it.
\<close>

definition schedInv :: "ScheduleDAGNode list \<Rightarrow> ScheduleLoop \<Rightarrow> bool" where
  "schedInv dg0 st =
     (retInv dg0 (set (appended st)) (set (appended st) - set (loopActive st))
        (loopDag st) (loopReady st)
      \<and> distinct (appended st) \<and> set (appended st) \<subseteq> {..<length dg0}
      \<and> insnNum st + length (appended st) = length dg0
      \<and> distinct (loopActive st) \<and> set (loopActive st) \<subseteq> set (appended st)
      \<and> (\<forall>k < length (appended st). \<forall>i < length dg0.
            appended st ! k \<in> set (children (dg0 ! i)) \<longrightarrow> i \<in> set (take k (appended st))))"

lemma after_retire:
  assumes inv: "schedInv dg0 st" and ef: "edgesForward dg0" and bound: "edgeNum dg0 < 2 ^ 32"
    and r: "retire (loopActive st) (cycle st) (loopDag st) (loopReady st) = (act, dg, rdy)"
  shows "act = filter (\<lambda>a. \<not> retiredCycle (loopDag st ! a) \<le> cycle st) (loopActive st)"
    and "retInv dg0 (set (appended st)) (set (appended st) - set act) dg rdy"
    and "\<forall>i. retiredCycle (dg ! i) = retiredCycle (loopDag st ! i)"
proof -
  let ?A = "set (appended st)"
  let ?R = "?A - set (loopActive st)"
  from inv have ri: "retInv dg0 ?A ?R (loopDag st) (loopReady st)"
    and da: "distinct (loopActive st)" and sa: "set (loopActive st) \<subseteq> ?A"
    and sA: "?A \<subseteq> {..<length dg0}"
    by (simp_all add: schedInv_def)
  have s1: "set (loopActive st) \<subseteq> {..<length dg0}" using sa sA by blast
  have s2: "set (loopActive st) \<inter> ?R = {}" by blast
  from retire_props [OF r ri da s1 s2 ef bound]
  have p: "act = filter (\<lambda>a. \<not> retiredCycle (loopDag st ! a) \<le> cycle st) (loopActive st)"
    "retInv dg0 ?A (?R \<union> (set (loopActive st) - set act)) dg rdy"
    "\<forall>i. retiredCycle (dg ! i) = retiredCycle (loopDag st ! i)"
    by blast+
  have "set act \<subseteq> set (loopActive st)" using p(1) by auto
  with sa have "?R \<union> (set (loopActive st) - set act) = ?A - set act" by blast
  with p show
    "act = filter (\<lambda>a. \<not> retiredCycle (loopDag st ! a) \<le> cycle st) (loopActive st)"
    "retInv dg0 (set (appended st)) (set (appended st) - set act) dg rdy"
    "\<forall>i. retiredCycle (dg ! i) = retiredCycle (loopDag st ! i)"
    by simp_all
qed

lemma scheduleStep_idle:
  assumes "retire (loopActive st) (cycle st) (loopDag st) (loopReady st) = (act, dg, rdy)"
    and "rdy = []"
  shows "scheduleStep ctx policy st =
           \<lparr>loopDag = dg, loopReady = rdy, loopActive = act, cycle = cycle st + 1,
            insnNum = insnNum st, appended = appended st\<rparr>"
  using assms by (simp add: scheduleStep_def)

lemma scheduleStep_issue:
  assumes "retire (loopActive st) (cycle st) (loopDag st) (loopReady st) = (act, dg, rdy)"
    and "rdy \<noteq> []"
  shows "\<exists>t rdy' cyc' r'.
           (rdy = t # rdy' \<or> rdy = rdy' @ [t])
         \<and> scheduleStep ctx policy st =
             \<lparr>loopDag = dg[t := (dg ! t)\<lparr>retiredCycle := r'\<rparr>], loopReady = rdy',
              loopActive = act @ [t], cycle = cyc', insnNum = insnNum st - 1,
              appended = appended st @ [t]\<rparr>"
proof (cases policy)
  case PRE_ALLOC
  have "rdy = butlast rdy @ [last rdy]" using assms(2) by simp
  then show ?thesis
    using assms PRE_ALLOC by (simp add: scheduleStep_def Let_def) blast
next
  case POST_ALLOC
  have "rdy = hd rdy # tl rdy" using assms(2) by simp
  then show ?thesis
    using assms POST_ALLOC by (simp add: scheduleStep_def Let_def) blast
qed

lemma schedInv_step:
  assumes inv: "schedInv dg0 st" and ef: "edgesForward dg0" and bound: "edgeNum dg0 < 2 ^ 32"
    and pos: "0 < insnNum st"
  shows "schedInv dg0 (scheduleStep ctx policy st)"
proof -
  let ?n = "length dg0"
  let ?A = "set (appended st)"
  obtain act dg rdy where
    r: "retire (loopActive st) (cycle st) (loopDag st) (loopReady st) = (act, dg, rdy)"
    by (metis prod_cases3)
  note ar = after_retire [OF inv ef bound r]
  from inv have dA: "distinct (appended st)" and sA: "?A \<subseteq> {..<?n}"
    and num: "insnNum st + length (appended st) = ?n"
    and da: "distinct (loopActive st)" and sa: "set (loopActive st) \<subseteq> ?A"
    and ord: "\<And>k i. k < length (appended st) \<Longrightarrow> i < ?n \<Longrightarrow>
                appended st ! k \<in> set (children (dg0 ! i)) \<Longrightarrow> i \<in> set (take k (appended st))"
    by (simp_all add: schedInv_def)
  have dact: "distinct act" using ar(1) da by simp
  have sact: "set act \<subseteq> ?A" using ar(1) sa by auto
  show ?thesis
  proof (cases "rdy = []")
    case True
    show ?thesis
      unfolding scheduleStep_idle [OF r True]
      using inv ar(2) dact sact by (simp add: schedInv_def)
  next
    case False
    from scheduleStep_issue [OF r False, of ctx policy] obtain t rdy' cyc' r' where
      sp: "rdy = t # rdy' \<or> rdy = rdy' @ [t]"
      and step: "scheduleStep ctx policy st =
             \<lparr>loopDag = dg[t := (dg ! t)\<lparr>retiredCycle := r'\<rparr>], loopReady = rdy',
              loopActive = act @ [t], cycle = cyc', insnNum = insnNum st - 1,
              appended = appended st @ [t]\<rparr>"
      by blast
    let ?R = "?A - set act"
    from ar(2) have rel: "relInv ?n ?A (pend dg0 ?R) dg rdy"
      and chs: "\<forall>i < ?n. i \<notin> ?R \<longrightarrow> children (dg ! i) = children (dg0 ! i)"
      by (simp_all add: retInv_def)
    from rel have len: "length dg = ?n"
      and ref: "\<forall>c < ?n. refNum (dg ! c) = of_nat (count (pend dg0 ?R) c)"
      and mem: "\<And>c. c < ?n \<Longrightarrow> (c \<in> set rdy \<union> ?A) = (count (pend dg0 ?R) c = 0)"
      and dr: "distinct rdy" and sr: "set rdy \<subseteq> {..<?n}" and ir: "set rdy \<inter> ?A = {}"
      by (simp_all add: relInv_def)
    from sp dr have t: "t \<in> set rdy" and dr': "distinct rdy'"
      and sr': "set rdy' = set rdy - {t}"
      by auto
    from t sr ir have tn: "t < ?n" and tA: "t \<notin> ?A" by auto
    have tact: "t \<notin> set act" using tA sact by blast
    have Req: "set (appended st @ [t]) - set (act @ [t]) = ?R" using tA by auto
    let ?dg = "dg[t := (dg ! t)\<lparr>retiredCycle := r'\<rparr>]"
    have mem': "(c \<in> set rdy' \<union> insert t ?A) = (count (pend dg0 ?R) c = 0)" if "c < ?n" for c
    proof -
      have "(c \<in> set rdy' \<union> insert t ?A) = (c \<in> set rdy \<union> ?A)" using sr' t by blast
      then show ?thesis using mem [OF that] by simp
    qed
    have "relInv ?n (insert t ?A) (pend dg0 ?R) ?dg rdy'"
      unfolding relInv_def
    proof (intro conjI)
      show "length ?dg = ?n" using len by simp
      show "\<forall>c < ?n. refNum (?dg ! c) = of_nat (count (pend dg0 ?R) c)"
        using ref by (simp add: nth_upd)
      show "\<forall>c < ?n. (c \<in> set rdy' \<union> insert t ?A) = (count (pend dg0 ?R) c = 0)"
        using mem' by blast
      show "distinct rdy'" by (rule dr')
      show "set rdy' \<subseteq> {..<?n}" using sr' sr by blast
      show "set rdy' \<inter> insert t ?A = {}" using sr' ir by blast
    qed
    moreover have "\<forall>i < ?n. i \<notin> ?R \<longrightarrow> children (?dg ! i) = children (dg0 ! i)"
      using chs by (simp add: nth_upd)
    ultimately have i1: "retInv dg0 (insert t ?A) ?R ?dg rdy'"
      by (simp add: retInv_def)
    have preds: "i \<in> ?A" if "i < ?n" "t \<in> set (children (dg0 ! i))" for i
    proof (rule ccontr)
      assume "i \<notin> ?A"
      then have "t \<in># pend dg0 ?R" using that in_pend by blast
      moreover have "count (pend dg0 ?R) t = 0" using mem [OF tn] t by simp
      ultimately show False by (simp add: count_eq_zero_iff)
    qed
    have ord': "i \<in> set (take k (appended st @ [t]))"
      if "k < length (appended st @ [t])" "i < ?n"
         "(appended st @ [t]) ! k \<in> set (children (dg0 ! i))" for k i
    proof (cases "k < length (appended st)")
      case True
      with that(3) have "appended st ! k \<in> set (children (dg0 ! i))" by (simp add: nth_append)
      from ord [OF True that(2) this] True show ?thesis by simp
    next
      case False
      with that(1) have k: "k = length (appended st)" by simp
      with that(3) have "t \<in> set (children (dg0 ! i))" by simp
      from preds [OF that(2) this] k show ?thesis by simp
    qed
    define st' where "st' = scheduleStep ctx policy st"
    have f: "loopDag st' = ?dg" "loopReady st' = rdy'" "loopActive st' = act @ [t]"
      "insnNum st' = insnNum st - 1" "appended st' = appended st @ [t]"
      using step by (simp_all add: st'_def)
    have "schedInv dg0 st'"
      unfolding schedInv_def f
    proof (intro conjI)
      show "retInv dg0 (set (appended st @ [t])) (set (appended st @ [t]) - set (act @ [t]))
              ?dg rdy'"
        unfolding Req using i1 by simp
      show "distinct (appended st @ [t])" using dA tA by simp
      show "set (appended st @ [t]) \<subseteq> {..<?n}" using sA tn by simp
      show "insnNum st - 1 + length (appended st @ [t]) = ?n" using num pos by simp
      show "distinct (act @ [t])" using dact tact by simp
      show "set (act @ [t]) \<subseteq> set (appended st @ [t])" using sact by auto
      show "\<forall>k < length (appended st @ [t]). \<forall>i < ?n.
              (appended st @ [t]) ! k \<in> set (children (dg0 ! i))
              \<longrightarrow> i \<in> set (take k (appended st @ [t]))"
        using ord' by blast
    qed
    then show ?thesis by (simp add: st'_def)
  qed
qed

text \<open>
  The loop cannot starve: as long as a node has not been issued, the first such node of
  the block has all its predecessors issued, so that with nothing active and nothing
  ready it would itself be ready.
\<close>

lemma not_starved:
  assumes rel: "relInv (length dg0) A (pend dg0 A) dg []"
    and sub: "A \<subseteq> {..<length dg0}" and card: "card A < length dg0"
    and ef: "edgesForward dg0"
  shows False
proof -
  let ?n = "length dg0"
  have "\<exists>m. m < ?n \<and> m \<notin> A"
  proof (rule ccontr)
    assume "\<not> (\<exists>m. m < ?n \<and> m \<notin> A)"
    then have "{..<?n} \<subseteq> A" by auto
    with sub have "A = {..<?n}" by blast
    with card show False by simp
  qed
  then obtain m where m: "m < ?n \<and> m \<notin> A" and least: "\<forall>k < m. \<not> (k < ?n \<and> k \<notin> A)"
    using exists_least_iff [of "\<lambda>m. m < ?n \<and> m \<notin> A"] by blast
  have "m \<notin># pend dg0 A"
  proof
    assume "m \<in># pend dg0 A"
    then obtain i where i: "i < ?n" "i \<notin> A" "m \<in> set (children (dg0 ! i))"
      using in_pend by blast
    with ef have "i < m" unfolding edgesForward_def by blast
    with least i show False by blast
  qed
  then have "count (pend dg0 A) m = 0" by (simp add: count_eq_zero_iff)
  moreover from rel m have "(m \<in> set [] \<union> A) = (count (pend dg0 A) m = 0)"
    unfolding relInv_def by blast
  ultimately show False using m by simp
qed

text \<open>
  The measure of the loop: the instructions to issue, then the active instructions, then
  the distance of the clock to the retirement cycle of the first active instruction,
  in 32-bit arithmetic.
\<close>

definition loopMeasure :: "ScheduleLoop \<Rightarrow> nat \<times> nat \<times> nat" where
  "loopMeasure st =
     (insnNum st, length (loopActive st),
      unat (retiredCycle (loopDag st ! hd (loopActive st)) - cycle st))"

lemma word_distance_decreases:
  fixes x y :: "32 word"
  assumes "\<not> x \<le> y"
  shows "unat (x - (y + 1)) < unat (x - y)"
proof -
  from assms have "x - y \<noteq> 0" by auto
  from measure_unat [OF this] show ?thesis by (simp add: diff_diff_eq)
qed

lemma step_decreases:
  assumes inv: "schedInv dg0 st" and ef: "edgesForward dg0" and bound: "edgeNum dg0 < 2 ^ 32"
    and pos: "0 < insnNum st"
  shows "(loopMeasure (scheduleStep ctx policy st), loopMeasure st)
           \<in> less_than <*lex*> less_than <*lex*> less_than"
proof -
  obtain act dg rdy where
    r: "retire (loopActive st) (cycle st) (loopDag st) (loopReady st) = (act, dg, rdy)"
    by (metis prod_cases3)
  note ar = after_retire [OF inv ef bound r]
  show ?thesis
  proof (cases "rdy = []")
    case False
    from scheduleStep_issue [OF r False, of ctx policy] pos
    have "insnNum (scheduleStep ctx policy st) < insnNum st" by auto
    then show ?thesis by (simp add: loopMeasure_def)
  next
    case True
    note step = scheduleStep_idle [OF r True, of ctx policy]
    show ?thesis
    proof (cases "\<exists>a \<in> set (loopActive st). retiredCycle (loopDag st ! a) \<le> cycle st")
      case True
      then obtain a where "a \<in> set (loopActive st)"
        "\<not> \<not> retiredCycle (loopDag st ! a) \<le> cycle st" by blast
      from length_filter_less
             [of a "loopActive st" "\<lambda>a. \<not> retiredCycle (loopDag st ! a) \<le> cycle st", OF this]
      have "length act < length (loopActive st)"
        using ar(1) by simp
      then show ?thesis by (simp add: step loopMeasure_def)
    next
      case False
      then have nd: "\<forall>a \<in> set (loopActive st). \<not> retiredCycle (loopDag st ! a) \<le> cycle st"
        by blast
      from retire_none_due [OF nd] r
      have e: "act = loopActive st" "dg = loopDag st" "rdy = loopReady st" by simp_all
      have ne: "loopActive st \<noteq> []"
      proof
        assume emp: "loopActive st = []"
        from ar(2) have rel: "relInv (length dg0) (set (appended st))
                                (pend dg0 (set (appended st))) dg []"
          using e(1) emp \<open>rdy = []\<close> by (simp add: retInv_def)
        from inv have sub: "set (appended st) \<subseteq> {..<length dg0}"
          and "card (set (appended st)) = length (appended st)"
          and "insnNum st + length (appended st) = length dg0"
          by (simp_all add: schedInv_def distinct_card)
        with pos have "card (set (appended st)) < length dg0" by simp
        from not_starved [OF rel sub this ef] show False .
      qed
      then have "hd (loopActive st) \<in> set (loopActive st)" by simp
      with nd have "\<not> retiredCycle (loopDag st ! hd (loopActive st)) \<le> cycle st" by blast
      from word_distance_decreases [OF this] show ?thesis
        by (simp add: step loopMeasure_def e)
    qed
  qed
qed

text \<open>The loop returns, with all instructions issued.\<close>

lemma scheduleLoop_terminates:
  assumes inv: "schedInv dg0 st" and ef: "edgesForward dg0" and bound: "edgeNum dg0 < 2 ^ 32"
  shows "\<exists>st'. scheduleLoop ctx policy st = Some st' \<and> schedInv dg0 st' \<and> insnNum st' = 0"
proof -
  have wf: "wf (inv_image (less_than <*lex*> less_than <*lex*> less_than) loopMeasure)"
    by (intro wf_inv_image wf_lex_prod wf_less_than)
  from wf inv show ?thesis
  proof (induction st rule: wf_induct_rule)
    case (less st)
    show ?case
    proof (cases "insnNum st = 0")
      case True
      then have "scheduleLoop ctx policy st = Some st"
        by (subst scheduleLoop.simps) simp
      with True less.prems show ?thesis by simp
    next
      case False
      then have pos: "0 < insnNum st" by simp
      have e: "scheduleLoop ctx policy st = scheduleLoop ctx policy (scheduleStep ctx policy st)"
        using False by (subst scheduleLoop.simps) simp
      have d: "(scheduleStep ctx policy st, st)
                 \<in> inv_image (less_than <*lex*> less_than <*lex*> less_than) loopMeasure"
        using step_decreases [OF less.prems ef bound pos] by simp
      from less.IH [OF d schedInv_step [OF less.prems ef bound pos]] show ?thesis
        by (simp add: e)
    qed
  qed
qed

lemma initial_schedInv:
  assumes ok: "dagOK dg0" and bound: "edgeNum dg0 < 2 ^ 32"
  shows "schedInv dg0
           \<lparr>loopDag = dg0, loopReady = filter (\<lambda>insnID. refNum (dg0 ! insnID) = 0) [0..<length dg0],
            loopActive = [], cycle = 0, insnNum = length dg0, appended = []\<rparr>"
proof -
  let ?n = "length dg0"
  let ?rdy = "filter (\<lambda>insnID. refNum (dg0 ! insnID) = 0) [0..<?n]"
  from ok have ref: "\<And>c. c < ?n \<Longrightarrow> refNum (dg0 ! c) = of_nat (count (allChildren dg0) c)"
    by (simp add: dagOK_def refNumsOK_def)
  have z: "(refNum (dg0 ! c) = 0) = (count (allChildren dg0) c = 0)" if "c < ?n" for c
  proof -
    have "count (allChildren dg0) c < 2 ^ 32"
      using count_pend_le [of dg0 "{}" c] bound by (simp add: pend_empty)
    then show ?thesis using ref [OF that] by (simp add: word32_of_nat_eq_0)
  qed
  have "relInv ?n {} (allChildren dg0) dg0 ?rdy"
    unfolding relInv_def
  proof (intro conjI)
    show "\<forall>c < ?n. refNum (dg0 ! c) = of_nat (count (allChildren dg0) c)" using ref by blast
    show "\<forall>c < ?n. (c \<in> set ?rdy \<union> {}) = (count (allChildren dg0) c = 0)" using z by simp
  qed auto
  then show ?thesis by (simp add: schedInv_def retInv_def pend_empty)
qed

text \<open>What \<open>scheduleDAG\<close> returns on the DAG of a block.\<close>

lemma scheduleDAG_props:
  assumes b: "buildDAG ctx policy s bb = Some (n, s1)"
    and bound: "edgeNum (dag (tracker s1)) < 2 ^ 32"
  shows "\<exists>s2 order. scheduleDAG ctx policy s1 n = Some (s2, order)
           \<and> distinct order \<and> set order = {..<n}
           \<and> (\<forall>k < length order. \<forall>i < n.
                 order ! k \<in> set (children (dag (tracker s1) ! i)) \<longrightarrow> i \<in> set (take k order))"
proof -
  let ?dg0 = "dag (tracker s1)"
  note p = buildDAG_props [OF b]
  have n: "length ?dg0 = n" using p(1,3) by (metis length_map)
  have ef: "edgesForward ?dg0" using p(2) by (simp add: dagOK_def)
  let ?st = "\<lparr>loopDag = ?dg0, loopReady = ready s1, loopActive = active s1,
              cycle = 0, insnNum = n, appended = []\<rparr>"
  have "schedInv ?dg0 ?st"
    using initial_schedInv [OF p(2) bound] p(4,5) n by simp
  from scheduleLoop_terminates [OF this ef bound, of ctx policy] obtain st' where
    l: "scheduleLoop ctx policy ?st = Some st'" and inv: "schedInv ?dg0 st'"
    and z: "insnNum st' = 0"
    by blast
  from inv z n have d: "distinct (appended st')" and s: "set (appended st') \<subseteq> {..<n}"
    and len: "length (appended st') = n"
    and ord: "\<forall>k < length (appended st'). \<forall>i < n.
                appended st' ! k \<in> set (children (?dg0 ! i)) \<longrightarrow> i \<in> set (take k (appended st'))"
    by (simp_all add: schedInv_def)
  have "card (set (appended st')) = card {..<n}" using d len by (simp add: distinct_card)
  with s have "set (appended st') = {..<n}" by (simp add: card_subset_eq)
  with d ord l show ?thesis by (simp add: scheduleDAG_def)
qed

lemma barrier_not_crossed:
  assumes d: "distinct order" and s: "set order = {..<length dg0}"
    and ord: "\<forall>k < length order. \<forall>i < length dg0.
                 order ! k \<in> set (children (dg0 ! i)) \<longrightarrow> i \<in> set (take k order)"
    and be: "barrierEdges b dg0" and b: "b < length dg0"
  shows "b < length order \<and> order ! b = b \<and> set (take b order) = {..<b}"
proof -
  from b s have "b \<in> set order" by simp
  then obtain k where k: "k < length order" "order ! k = b"
    by (auto simp: in_set_conv_nth)
  have sup: "i \<in> set (take k order)" if "i < b" for i
  proof -
    from be that have "b \<in> set (children (dg0 ! i))" by (simp add: barrierEdges_def)
    moreover have "i < length dg0" using that b by simp
    ultimately show ?thesis using ord k by blast
  qed
  have sub: "x < b" if "x \<in> set (take k order)" for x
  proof -
    from that k(1) obtain l where l: "l < k" "order ! l = x"
      by (auto simp: in_set_conv_nth)
    have ll: "l < length order" using l(1) k(1) by simp
    then have xn: "x < length dg0" using s l(2) nth_mem [OF ll] by auto
    have "x \<noteq> b" using d l k ll by (auto simp: nth_eq_iff_index_eq)
    moreover have "\<not> b < x"
    proof
      assume "b < x"
      with be xn have "x \<in> set (children (dg0 ! b))" by (simp add: barrierEdges_def)
      with ord ll l(2) b have "b \<in> set (take l order)" by blast
      then obtain m where m: "m < l" "order ! m = b"
        using ll by (auto simp: in_set_conv_nth)
      then have "order ! m = order ! k" "m \<noteq> k" "m < length order"
        using k l(1) ll by simp_all
      with d k(1) show False by (simp add: nth_eq_iff_index_eq)
    qed
    ultimately show ?thesis by simp
  qed
  have eq: "set (take k order) = {..<b}" using sup sub by auto
  have "card (set (take k order)) = k"
    using d k(1) by (simp add: distinct_card)
  with eq have "k = b" by simp
  with k eq show ?thesis by simp
qed

lemma edgeNum_children: "edgeNum dg = sum_list (map length (map children dg))"
  by (induction dg) (simp_all add: edgeNum_def)

lemma exampleBlock_dag:
  "\<exists>s1. buildDAG (exampleGenContext 16) PRE_ALLOC (exampleScheduler PRE_ALLOC) exampleBlock
           = Some (5, s1)
        \<and> map children (dag (tracker s1)) = [[1, 2, 3, 4, 4], [3, 4], [4], [4], []]"
proof -
  have "map_option (\<lambda>(n, s). (n, map children (dag (tracker s))))
          (buildDAG (exampleGenContext 16) PRE_ALLOC (exampleScheduler PRE_ALLOC) exampleBlock)
        = Some (5, [[1, 2, 3, 4, 4], [3, 4], [4], [4], []])"
    by code_simp
  then show ?thesis by auto
qed

subsection \<open>Termination\<close>

text \<open>
  C10. \<open>addDependency\<close> links no node to itself. In the DAG that \<open>buildDAG\<close> leaves
  for a block, every edge goes from a node to a node later in the block, so the DAG has
  no cycle. If the DAG has fewer than \<open>2^32\<close> edges (\<open>refNum\<close> is a 32-bit counter),
  \<open>scheduleDAG\<close> returns, and it has appended as many instructions as \<open>buildDAG\<close>
  counted.
\<close>

theorem C10_scheduleDAG_terminates:
  assumes "buildDAG ctx policy s bb = Some (n, s1)"
  shows "addDependency (Some k) (Some k) dg = dg
       \<and> n = length bb
       \<and> (\<forall>i < n. \<forall>c \<in> set (children (dag (tracker s1) ! i)). i < c \<and> c < n)
       \<and> acyclic {(i, c). i < n \<and> c \<in> set (children (dag (tracker s1) ! i))}
       \<and> (edgeNum (dag (tracker s1)) < 2 ^ 32 \<longrightarrow>
            (\<exists>s2 order. scheduleDAG ctx policy s1 n = Some (s2, order) \<and> length order = n))"
proof -
  note p = buildDAG_props [OF assms]
  have n: "length (dag (tracker s1)) = n" using p(1,3) by (metis length_map)
  from p(2) have ef: "edgesForward (dag (tracker s1))" by (simp add: dagOK_def)
  have fw: "\<forall>i < n. \<forall>c \<in> set (children (dag (tracker s1) ! i)). i < c \<and> c < n"
  proof (intro allI impI ballI)
    fix i c assume "i < n" "c \<in> set (children (dag (tracker s1) ! i))"
    with ef n show "i < c \<and> c < n" unfolding edgesForward_def by blast
  qed
  have "{(i, c). i < n \<and> c \<in> set (children (dag (tracker s1) ! i))} \<subseteq> less_than"
  proof
    fix x assume "x \<in> {(i, c). i < n \<and> c \<in> set (children (dag (tracker s1) ! i))}"
    then obtain i c where x: "x = (i, c)" "i < n" "c \<in> set (children (dag (tracker s1) ! i))"
      by blast
    with fw have "i < c" by blast
    with x show "x \<in> less_than" by simp
  qed
  then have ac: "acyclic {(i, c). i < n \<and> c \<in> set (children (dag (tracker s1) ! i))}"
    by (rule acyclic_subset [OF wf_acyclic [OF wf_less_than]])
  have sched: "\<exists>s2 order. scheduleDAG ctx policy s1 n = Some (s2, order) \<and> length order = n"
    if "edgeNum (dag (tracker s1)) < 2 ^ 32"
  proof -
    from scheduleDAG_props [OF assms that] obtain s2 order where
      r: "scheduleDAG ctx policy s1 n = Some (s2, order)" "distinct order" "set order = {..<n}"
      by blast
    from r(2,3) have "length order = n" using distinct_card [of order] by simp
    with r(1) show ?thesis by blast
  qed
  show ?thesis
  proof (intro conjI impI)
    show "addDependency (Some k) (Some k) dg = dg" by (simp add: addDependency_def)
    show "n = length bb" by (rule p(1))
    show "\<forall>i < n. \<forall>c \<in> set (children (dag (tracker s1) ! i)). i < c \<and> c < n" by (rule fw)
    show "acyclic {(i, c). i < n \<and> c \<in> set (children (dag (tracker s1) ! i))}" by (rule ac)
    assume "edgeNum (dag (tracker s1)) < 2 ^ 32"
    then show "\<exists>s2 order. scheduleDAG ctx policy s1 n = Some (s2, order) \<and> length order = n"
      by (rule sched)
  qed
qed

text \<open>
  C10, witness: the DAG of the example block has 9 edges, and \<open>scheduleDAG\<close> returns
  with five instructions appended.
\<close>

theorem C10_scheduleDAG_terminates_witness:
  "\<exists>s1 s2 order.
     buildDAG (exampleGenContext 16) PRE_ALLOC (exampleScheduler PRE_ALLOC) exampleBlock = Some (5, s1)
     \<and> edgeNum (dag (tracker s1)) = 9
     \<and> scheduleDAG (exampleGenContext 16) PRE_ALLOC s1 5 = Some (s2, order)
     \<and> length order = 5"
proof -
  from exampleBlock_dag obtain s1 where
    b: "buildDAG (exampleGenContext 16) PRE_ALLOC (exampleScheduler PRE_ALLOC) exampleBlock
          = Some (5, s1)"
    and c: "map children (dag (tracker s1)) = [[1, 2, 3, 4, 4], [3, 4], [4], [4], []]"
    by (elim exE conjE)
  have e: "edgeNum (dag (tracker s1)) = 9" by (simp add: edgeNum_children c)
  from C10_scheduleDAG_terminates [OF b] e b show ?thesis by simp
qed

subsection \<open>The scheduled block\<close>

text \<open>
  C2. For a block on which \<open>buildDAG\<close> returns with a DAG of fewer than \<open>2^32\<close> edges,
  \<open>scheduleDAG\<close> returns, and the instructions it has appended are the instructions of
  the block, each position of the block exactly once, so the new block has the same
  multiset of instructions; and when an instruction is appended, every instruction it
  depends on in the DAG (every node that has it as a child) has been appended before.
\<close>

theorem C2_schedule_permutes:
  assumes "buildDAG ctx policy s bb = Some (n, s1)"
    and "edgeNum (dag (tracker s1)) < 2 ^ 32"
  shows "\<exists>s2 order.
           scheduleDAG ctx policy s1 n = Some (s2, order)
         \<and> scheduleBlock ctx policy s bb = Some (s2, map (\<lambda>insnID. bb ! insnID) order)
         \<and> distinct order \<and> set order = {..<length bb}
         \<and> mset (map (\<lambda>insnID. bb ! insnID) order) = mset bb
         \<and> (\<forall>k < length order. \<forall>i < length bb.
               order ! k \<in> set (children (dag (tracker s1) ! i)) \<longrightarrow> i \<in> set (take k order))"
proof -
  have n: "n = length bb" using buildDAG_props(1) [OF assms(1)] .
  from scheduleDAG_props [OF assms] obtain s2 order where
    r: "scheduleDAG ctx policy s1 n = Some (s2, order)" "distinct order" "set order = {..<n}"
       "\<forall>k < length order. \<forall>i < n.
          order ! k \<in> set (children (dag (tracker s1) ! i)) \<longrightarrow> i \<in> set (take k order)"
    by blast
  have "set order = set [0..<n]" using r(3) by (simp add: lessThan_atLeast0)
  with r(2) have "mset order = mset [0..<n]"
    using set_eq_iff_mset_eq_distinct [of order "[0..<n]"] by simp
  then have "mset (map (\<lambda>insnID. bb ! insnID) order) = mset (map (\<lambda>insnID. bb ! insnID) [0..<n])"
    by (metis mset_map)
  then have m: "mset (map (\<lambda>insnID. bb ! insnID) order) = mset bb"
    by (simp add: n map_nth)
  have "scheduleBlock ctx policy s bb = Some (s2, map (\<lambda>insnID. bb ! insnID) order)"
    using assms(1) r(1) by (simp add: scheduleBlock_def)
  with r m show ?thesis unfolding n by blast
qed

text \<open>
  C2, witness: before the allocation the example block is emitted with the
  multiplication before the addition; the multiset of its instructions is the same.
\<close>

theorem C2_schedule_permutes_witness:
  "\<exists>s2. scheduleBlock (exampleGenContext 16) PRE_ALLOC (exampleScheduler PRE_ALLOC) exampleBlock
          = Some (s2, [exampleBlock ! 0, exampleBlock ! 2, exampleBlock ! 1, exampleBlock ! 3,
                       exampleBlock ! 4])
       \<and> mset [exampleBlock ! 0, exampleBlock ! 2, exampleBlock ! 1, exampleBlock ! 3,
               exampleBlock ! 4] = mset exampleBlock"
proof -
  from exampleBlock_dag obtain s1 where
    b: "buildDAG (exampleGenContext 16) PRE_ALLOC (exampleScheduler PRE_ALLOC) exampleBlock
          = Some (5, s1)"
    and c: "map children (dag (tracker s1)) = [[1, 2, 3, 4, 4], [3, 4], [4], [4], []]"
    by (elim exE conjE)
  have e: "edgeNum (dag (tracker s1)) < 2 ^ 32" by (simp add: edgeNum_children c)
  from C2_schedule_permutes [OF b e] obtain s2 order where
    r: "scheduleBlock (exampleGenContext 16) PRE_ALLOC (exampleScheduler PRE_ALLOC) exampleBlock
          = Some (s2, map (\<lambda>insnID. exampleBlock ! insnID) order)"
       "mset (map (\<lambda>insnID. exampleBlock ! insnID) order) = mset exampleBlock"
    by blast
  have "map_option snd (scheduleBlock (exampleGenContext 16) PRE_ALLOC (exampleScheduler PRE_ALLOC)
          exampleBlock)
        = Some [exampleBlock ! 0, exampleBlock ! 2, exampleBlock ! 1, exampleBlock ! 3,
                exampleBlock ! 4]"
    by code_simp
  with r(1) have "map (\<lambda>insnID. exampleBlock ! insnID) order
        = [exampleBlock ! 0, exampleBlock ! 2, exampleBlock ! 1, exampleBlock ! 3, exampleBlock ! 4]"
    by simp
  with r show ?thesis by simp
qed

subsection \<open>The barriers\<close>

text \<open>
  C3. In the DAG that \<open>buildDAG\<close> leaves for a block, node \<open>k\<close> is the \<open>k\<close>-th
  instruction of the block, and an instruction \<open>b\<close> that is a branch, a label or
  \<open>SEL\_OP\_EOT\<close> is a child of every instruction before it (it depends on each of them)
  and has every instruction after it among its children (each of them depends on it).
  So no instruction is scheduled across it: if the DAG has fewer than \<open>2^32\<close> edges,
  \<open>scheduleDAG\<close> appends \<open>b\<close> at its position \<open>b\<close>, after exactly the instructions
  that precede it in the block.
\<close>

theorem C3_barrier_edges:
  assumes "buildDAG ctx policy s bb = Some (n, s1)"
    and "b < length bb"
    and "isBranch (bb ! b) \<or> isLabel (bb ! b) \<or> opcode (bb ! b) = SEL_OP_EOT"
  shows "n = length bb \<and> map insn (dag (tracker s1)) = bb
         \<and> (\<forall>i < b. b \<in> set (children (dag (tracker s1) ! i)))
         \<and> (\<forall>j. b < j \<and> j < length bb \<longrightarrow> j \<in> set (children (dag (tracker s1) ! b)))
         \<and> (edgeNum (dag (tracker s1)) < 2 ^ 32 \<longrightarrow>
              (\<exists>s2 order. scheduleDAG ctx policy s1 n = Some (s2, order)
                 \<and> order ! b = b \<and> set (take b order) = {..<b}))"
proof -
  note p = buildDAG_props [OF assms(1)]
  from assms(3) have "isBarrierInsn (bb ! b)" by (simp add: isBarrierInsn_def)
  from p(6) [OF assms(2) this] have be: "barrierEdges b (dag (tracker s1))" .
  have len: "length (dag (tracker s1)) = n"
    using p(1,3) by (metis length_map)
  have edges: "(\<forall>i < b. b \<in> set (children (dag (tracker s1) ! i)))
         \<and> (\<forall>j. b < j \<and> j < length bb \<longrightarrow> j \<in> set (children (dag (tracker s1) ! b)))"
    using be len p(1) by (simp add: barrierEdges_def)
  have sched: "\<exists>s2 order. scheduleDAG ctx policy s1 n = Some (s2, order)
                 \<and> order ! b = b \<and> set (take b order) = {..<b}"
    if "edgeNum (dag (tracker s1)) < 2 ^ 32"
  proof -
    from scheduleDAG_props [OF assms(1) that] obtain s2 order where
      r: "scheduleDAG ctx policy s1 n = Some (s2, order)" "distinct order"
         "set order = {..<length (dag (tracker s1))}"
         "\<forall>k < length order. \<forall>i < length (dag (tracker s1)).
            order ! k \<in> set (children (dag (tracker s1) ! i)) \<longrightarrow> i \<in> set (take k order)"
      unfolding len by blast
    have "b < length (dag (tracker s1))" using assms(2) len p(1) by simp
    from barrier_not_crossed [OF r(2,3,4) be this] r(1) show ?thesis by blast
  qed
  show ?thesis
  proof (intro conjI impI)
    show "n = length bb" by (rule p(1))
    show "map insn (dag (tracker s1)) = bb" by (rule p(3))
    show "\<forall>i < b. b \<in> set (children (dag (tracker s1) ! i))" using edges by blast
    show "\<forall>j. b < j \<and> j < length bb \<longrightarrow> j \<in> set (children (dag (tracker s1) ! b))"
      using edges by blast
    assume "edgeNum (dag (tracker s1)) < 2 ^ 32"
    then show "\<exists>s2 order. scheduleDAG ctx policy s1 n = Some (s2, order)
                 \<and> order ! b = b \<and> set (take b order) = {..<b}"
      by (rule sched)
  qed
qed

text \<open>
  C3, witness: in the example block the label at position 0 has the four other
  instructions among its children, and the jump at position 4 is a child of each of the
  four before it and is appended last.
\<close>

theorem C3_barrier_edges_witness:
  "\<exists>s1 s2 order.
      buildDAG (exampleGenContext 16) PRE_ALLOC (exampleScheduler PRE_ALLOC) exampleBlock = Some (5, s1)
    \<and> isLabel (exampleBlock ! 0) \<and> isBranch (exampleBlock ! 4)
    \<and> {1, 2, 3, 4} \<subseteq> set (children (dag (tracker s1) ! 0))
    \<and> 4 \<in> set (children (dag (tracker s1) ! 1))
    \<and> 4 \<in> set (children (dag (tracker s1) ! 2))
    \<and> 4 \<in> set (children (dag (tracker s1) ! 3))
    \<and> scheduleDAG (exampleGenContext 16) PRE_ALLOC s1 5 = Some (s2, order)
    \<and> order ! 4 = 4 \<and> set (take 4 order) = {..<4}"
proof -
  from exampleBlock_dag obtain s1 where
    b: "buildDAG (exampleGenContext 16) PRE_ALLOC (exampleScheduler PRE_ALLOC) exampleBlock
          = Some (5, s1)"
    and c: "map children (dag (tracker s1)) = [[1, 2, 3, 4, 4], [3, 4], [4], [4], []]"
    by (elim exE conjE)
  have e: "edgeNum (dag (tracker s1)) < 2 ^ 32" by (simp add: edgeNum_children c)
  have l: "isLabel (exampleBlock ! 0)" "isBranch (exampleBlock ! 4)" "length exampleBlock = 5"
    by (simp_all add: exampleBlock_def exampleInsn_def)
  have "\<forall>j. 0 < j \<and> j < 5 \<longrightarrow> j \<in> set (children (dag (tracker s1) ! 0))"
    using C3_barrier_edges [OF b, of 0] l by simp
  then have z: "{1, 2, 3, 4} \<subseteq> set (children (dag (tracker s1) ! 0))" by simp
  from C3_barrier_edges [OF b, of 4] l e
  have f: "\<forall>i < 4. 4 \<in> set (children (dag (tracker s1) ! i))"
    and "\<exists>s2 order. scheduleDAG (exampleGenContext 16) PRE_ALLOC s1 5 = Some (s2, order)
           \<and> order ! 4 = 4 \<and> set (take 4 order) = {..<4}"
    by simp_all
  then obtain s2 order where
    "scheduleDAG (exampleGenContext 16) PRE_ALLOC s1 5 = Some (s2, order)"
    "order ! 4 = 4" "set (take 4 order) = {..<4}"
    by blast
  with b l z f show ?thesis by simp
qed

end
